theory Spec2Isabelle
  imports Complex_Main "HOL-Library.Multiset" "HOL-Library.Sublist"
begin


section \<open>Python string primitives used by the sources\<close>

text \<open>
  A Python \<open>str\<close> is modelled as a \<open>string\<close>; each \<open>char\<close> stands for one code point
  below 256.  \<open>isspace\<close> lists the code points below 256 that \<open>str.strip\<close>, \<open>str.split\<close>
  and the regular expression class \<open>\s\<close> treat as whitespace.
\<close>

definition isspace :: "char \<Rightarrow> bool" where
  "isspace c = (of_char c \<in> {9, 10, 11, 12, 13, 28, 29, 30, 31, 32, 133, 160 :: nat})"

definition str_strip :: "string \<Rightarrow> string" where
  "str_strip s = rev (dropWhile isspace (rev (dropWhile isspace s)))"

text \<open>\<open>s.split()\<close>: the maximal runs of non-whitespace characters, left to right.
  The first argument is the word being read, reversed.\<close>

fun split_aux :: "string \<Rightarrow> string \<Rightarrow> string list" where
  "split_aux cur [] = (if cur = [] then [] else [rev cur])"
| "split_aux cur (c # cs) =
     (if isspace c
      then (if cur = [] then split_aux [] cs else rev cur # split_aux [] cs)
      else split_aux (c # cur) cs)"

definition str_split :: "string \<Rightarrow> string list" where
  "str_split s = split_aux [] s"

fun str_join :: "string \<Rightarrow> string list \<Rightarrow> string" where
  "str_join sep [] = []"
| "str_join sep [x] = x"
| "str_join sep (x # y # ys) = x @ sep @ str_join sep (y # ys)"

text \<open>\<open>str(n)\<close> for an integer: decimal digits, with a minus sign when negative.\<close>

fun digits_of :: "nat \<Rightarrow> string" where
  "digits_of n =
     (if n < 10 then [char_of (48 + n)]
      else digits_of (n div 10) @ [char_of (48 + n mod 10)])"

definition str_of_int :: "int \<Rightarrow> string" where
  "str_of_int i = (if i < 0 then CHR ''-'' # digits_of (nat (- i)) else digits_of (nat i))"

section \<open>chunking.py\<close>

subsection \<open>\<open>split_into_sentences\<close>\<close>

definition is_terminator :: "char \<Rightarrow> bool" where
  "is_terminator c = (c = CHR ''.'' \<or> c = CHR ''?'' \<or> c = CHR ''!'')"

text \<open>
  \<open>_SENT_SPLIT_RE.split(text)\<close> for the pattern \<open>(?<=[\.\?\!])\s+\<close>: a match is a
  maximal whitespace run whose preceding character is one of \<open>.\<close>, \<open>?\<close>, \<open>!\<close>; the pieces
  between the matches are returned, the last one even when it is empty.  The first
  argument is the piece being read, reversed.
\<close>

function sent_split_re :: "string \<Rightarrow> string \<Rightarrow> string list" where
  "sent_split_re cur [] = [rev cur]"
| "sent_split_re cur (c # cs) =
     (if is_terminator c \<and> cs \<noteq> [] \<and> isspace (hd cs)
      then rev (c # cur) # sent_split_re [] (dropWhile isspace cs)
      else sent_split_re (c # cur) cs)"
  by pat_completeness auto
termination
  by (relation "measure (\<lambda>(cur, s). length s)")
     (auto simp: length_dropWhile_le less_Suc_eq_le)

definition split_into_sentences :: "string \<Rightarrow> string list" where
  "split_into_sentences text =
     (let text = str_strip text in
      if text = [] then []
      else map str_strip (filter (\<lambda>s. str_strip s \<noteq> []) (sent_split_re [] text)))"

subsection \<open>\<open>tokens_length\<close>\<close>

text \<open>
  \<open>TIKTOKEN_AVAILABLE\<close> and the encoding are the environment: \<open>Some enc\<close> when the
  tiktoken import succeeded, \<open>enc\<close> being its \<open>encode\<close> for the encoder name in use, and
  \<open>None\<close> otherwise.  In the fallback, \<open>int(len(words) * 1.3)\<close> is \<open>13 * n div 10\<close>: the
  double nearest to 1.3 lies above 1.3 by less than \<open>10\<^sup>-\<^sup>1\<^sup>6\<close>, so the product never
  falls below an integer that \<open>13 * n / 10\<close> reaches, nor climbs to one it does not.
\<close>

type_synonym tokenizer = "(string \<Rightarrow> nat list) option"

definition tokens_length :: "tokenizer \<Rightarrow> string \<Rightarrow> int" where
  "tokens_length tk text =
     (case tk of
        Some enc \<Rightarrow> int (length (enc text))
      | None \<Rightarrow> max 1 (int (length (str_split text)) * 13 div 10))"

subsection \<open>\<open>chunk_sentences_to_chunks\<close>\<close>

text \<open>The loop state \<open>(chunks, cur, cur_tokens)\<close> and the nested \<open>flush\<close>.\<close>

type_synonym pack_state = "string list \<times> string list \<times> int"

fun flush :: "pack_state \<Rightarrow> pack_state" where
  "flush (chunks, cur, cur_tokens) =
     ((if cur \<noteq> [] then chunks @ [str_strip (str_join '' '' cur)] else chunks), [], 0)"

text \<open>One round of \<open>for w in words\<close>, on the state \<open>(chunks, piece, piece_tokens)\<close>.\<close>

fun word_step :: "tokenizer \<Rightarrow> int \<Rightarrow> pack_state \<Rightarrow> string \<Rightarrow> pack_state" where
  "word_step tk max_tokens (chunks, piece, piece_tokens) w =
     (let w_tokens = tokens_length tk (w @ '' '') in
      if piece_tokens + w_tokens > max_tokens
      then (chunks @ [str_strip (str_join '' '' piece)], [w], w_tokens)
      else (chunks, piece @ [w], piece_tokens + w_tokens))"

text \<open>One round of \<open>for sent in sentences\<close>.\<close>

fun sent_step :: "tokenizer \<Rightarrow> int \<Rightarrow> pack_state \<Rightarrow> string \<Rightarrow> pack_state" where
  "sent_step tk max_tokens (chunks, cur, cur_tokens) sent =
     (let sent_tokens = tokens_length tk sent in
      if sent_tokens > max_tokens then
        (case foldl (word_step tk max_tokens) (chunks, [], 0) (str_split sent) of
           (chunks', piece, piece_tokens) \<Rightarrow>
             if piece \<noteq> [] then
               if cur_tokens + piece_tokens \<le> max_tokens
               then (chunks', cur @ [str_join '' '' piece], cur_tokens + piece_tokens)
               else (case flush (chunks', cur, cur_tokens) of
                       (chunks'', cur', _) \<Rightarrow>
                         (chunks'', cur' @ [str_join '' '' piece], piece_tokens))
             else (chunks', cur, cur_tokens))
      else if cur_tokens + sent_tokens \<le> max_tokens
      then (chunks, cur @ [sent], cur_tokens + sent_tokens)
      else (case flush (chunks, cur, cur_tokens) of
              (chunks', cur', _) \<Rightarrow> (chunks', cur' @ [sent], sent_tokens)))"

text \<open>Lines 35 to 81: the chunks before any overlap is added.\<close>

definition pack_sentences :: "tokenizer \<Rightarrow> string list \<Rightarrow> int \<Rightarrow> string list" where
  "pack_sentences tk sentences max_tokens =
     (case foldl (sent_step tk max_tokens) ([], [], 0) sentences of
        (chunks, cur, cur_tokens) \<Rightarrow>
          if cur \<noteq> [] then chunks @ [str_strip (str_join '' '' cur)] else chunks)"

text \<open>
  \<open>max(1, int(overlap_tokens / 1.3))\<close> for a positive integer \<open>overlap_tokens\<close> is
  \<open>max 1 (10 * o div 13)\<close>: the quotient by the double nearest to 1.3 rounds to the
  integer \<open>10 * o / 13\<close> when that is one, and keeps its integer part otherwise.
\<close>

definition approx_words :: "int \<Rightarrow> nat" where
  "approx_words overlap_tokens = nat (max 1 (overlap_tokens * 10 div 13))"

text \<open>\<open>overlap_words\<close> of line 90, from the previous chunk \<open>prev\<close>.\<close>

definition overlap_words :: "int \<Rightarrow> string \<Rightarrow> string list" where
  "overlap_words overlap_tokens prev =
     (let prev_words = str_split prev;
          n = approx_words overlap_tokens
      in if length prev_words \<ge> n then drop (length prev_words - n) prev_words
         else prev_words)"

text \<open>One round of \<open>for i in range(1, len(chunks))\<close>; \<open>c\<close> is \<open>chunks[i]\<close> and
  \<open>prev\<close> is \<open>overlapped[-1]\<close>.\<close>

definition overlap_step :: "int \<Rightarrow> string list \<Rightarrow> string \<Rightarrow> string list" where
  "overlap_step overlap_tokens overlapped c =
     (let prev = last overlapped;
          new_chunk = str_join '' '' (overlap_words overlap_tokens prev @ str_split c)
      in overlapped @ [new_chunk])"

definition chunk_sentences_to_chunks ::
  "tokenizer \<Rightarrow> string list \<Rightarrow> int \<Rightarrow> int \<Rightarrow> string list" where
  "chunk_sentences_to_chunks tk sentences max_tokens overlap_tokens =
     (if sentences = [] then []
      else
        let chunks = pack_sentences tk sentences max_tokens in
        if overlap_tokens > 0 \<and> length chunks > 1
        then foldl (overlap_step overlap_tokens) [hd chunks] (tl chunks)
        else chunks)"

subsection \<open>\<open>chunk_page_text\<close>\<close>

record passage =
  source :: string
  page :: int
  chunk_index :: int
  chunk_text :: string
  label :: string

definition make_passage :: "string \<Rightarrow> int \<Rightarrow> nat \<times> string \<Rightarrow> passage" where
  "make_passage src page_no ic =
     (case ic of (i, c) \<Rightarrow>
        \<lparr> source = src, page = page_no, chunk_index = int i, chunk_text = c,
          label = ''(source:'' @ src @ '' page:'' @ str_of_int page_no
                  @ '' chunk:'' @ str_of_int (int i) @ '')'' @ [CHR 0x0A] @ c \<rparr>)"

definition chunk_page_text ::
  "tokenizer \<Rightarrow> string \<Rightarrow> string \<Rightarrow> int \<Rightarrow> int \<Rightarrow> int \<Rightarrow> passage list" where
  "chunk_page_text tk page_text src page_no max_tokens overlap_tokens =
     (let sentences = split_into_sentences page_text;
          chunks = chunk_sentences_to_chunks tk sentences max_tokens overlap_tokens
      in map (make_passage src page_no) (zip [1 ..< Suc (length chunks)] chunks))"

subsection \<open>Texts with a sentence boundary\<close>

text \<open>A text has a sentence boundary when one of \<open>.\<close>, \<open>?\<close>, \<open>!\<close> is directly followed
  by a whitespace character.\<close>
fun has_boundary :: "string \<Rightarrow> bool" where
  "has_boundary (c # d # cs) = ((is_terminator c \<and> isspace d) \<or> has_boundary (d # cs))"
| "has_boundary _ = False"

text \<open>A word: a non-empty string without whitespace, as \<open>s.split()\<close> returns them.\<close>

definition is_word :: "string \<Rightarrow> bool" where
  "is_word w = (w \<noteq> [] \<and> list_all (\<lambda>c. \<not> isspace c) w)"

subsection \<open>Loop invariants of the packing loops under the word-count fallback\<close>

text \<open>For \<open>for w in words\<close>: every chunk emitted so far has at most \<open>m\<close> words, the
  piece is a list of words and \<open>piece_tokens\<close> is its length, at most \<open>m\<close>.\<close>

definition word_inv :: "int \<Rightarrow> pack_state \<Rightarrow> bool" where
  "word_inv m st =
     (case st of (chunks, piece, piece_tokens) \<Rightarrow>
        list_all (\<lambda>c. int (length (str_split c)) \<le> m) chunks
        \<and> list_all is_word piece
        \<and> piece_tokens = int (length piece) \<and> piece_tokens \<le> m)"

text \<open>For \<open>for sent in sentences\<close>: every chunk emitted so far has at most \<open>m\<close> words,
  and the buffer holds at most \<open>cur_tokens\<close> words, \<open>cur_tokens\<close> being at most \<open>m\<close>.\<close>

definition sent_inv :: "int \<Rightarrow> pack_state \<Rightarrow> bool" where
  "sent_inv m st =
     (case st of (chunks, cur, cur_tokens) \<Rightarrow>
        list_all (\<lambda>c. int (length (str_split c)) \<le> m) chunks
        \<and> int (length (concat (map str_split cur))) \<le> cur_tokens
        \<and> cur_tokens \<le> m)"

section \<open>embeddings\_index.py\<close>

subsection \<open>Errors and the encoder\<close>

text \<open>
  The exceptions the sources raise themselves, by their Python names, and
  \<open>ExternalError\<close> for an exception raised inside a library call (the encoder, FAISS,
  \<open>json\<close>, PyMuPDF, pdf2image, PIL, Tesseract), with the text of that exception.
  \<open>IndexError\<close> is an out-of-range list access.
\<close>

datatype error =
    ValueError
  | RuntimeError
  | FileNotFoundError
  | IndexError
  | ExternalError string

type_synonym vector = "real list"

text \<open>
  The embedder is a black box: \<open>encode\<close> is \<open>SentenceTransformer(model_name).encode\<close> on
  a list of texts, which returns an array of one row per text or raises, and
  \<open>dimension\<close> is its \<open>get_sentence_embedding_dimension()\<close>, which is \<open>None\<close> for a model
  that does not report one.  \<open>self.dim\<close> is assigned once, in \<open>__init__\<close>, from the
  embedder of \<open>self.model_name\<close>; the model reads it from \<open>dimension\<close> where \<open>build\<close>
  uses it.
\<close>

record services =
  encode :: "string \<Rightarrow> string list \<Rightarrow> string + vector list"
  dimension :: "string \<Rightarrow> nat option"

subsection \<open>FAISS\<close>

text \<open>
  The part of FAISS that \<open>EmbeddingsIndex\<close> calls, over the reals: the float32
  arithmetic of the library is replaced by exact arithmetic, so a number computed
  here is the number FAISS computes up to its rounding.  An array of shape \<open>(n, d)\<close>
  is the list of its \<open>n\<close> rows.
\<close>

definition inner_product :: "vector \<Rightarrow> vector \<Rightarrow> real" where
  "inner_product x y = sum_list (map (\<lambda>(a, b). a * b) (zip x y))"

definition norm_L2sqr :: "vector \<Rightarrow> real" where
  "norm_L2sqr x = sum_list (map (\<lambda>a. a * a) x)"

text \<open>\<open>faiss.normalize_L2\<close> scales every row of positive norm by the inverse of its
  norm and leaves a zero row as it is.\<close>

definition renorm_L2 :: "vector \<Rightarrow> vector" where
  "renorm_L2 x =
     (let nr = norm_L2sqr x in
      if nr > 0 then (let inv_nr = 1 / sqrt nr in map (\<lambda>a. a * inv_nr) x) else x)"

definition normalize_L2 :: "vector list \<Rightarrow> vector list" where
  "normalize_L2 x = map renorm_L2 x"

text \<open>A flat inner-product index: its dimension \<open>d\<close> and the rows added to it, in
  order.  \<open>faiss.IndexFlatIP(dim)\<close> is the empty index, and raises \<open>TypeError\<close> when
  \<open>dim\<close> is \<open>None\<close>.\<close>

datatype faiss_index = IndexFlatIP nat "vector list"

definition index_flat_ip :: "nat option \<Rightarrow> string + faiss_index" where
  "index_flat_ip self_dim =
     (case self_dim of None \<Rightarrow> Inl ''TypeError'' | Some d \<Rightarrow> Inr (IndexFlatIP d []))"

text \<open>\<open>index.add(x)\<close> asserts that the rows of \<open>x\<close> have the dimension of the index and
  appends them.\<close>

definition index_add :: "faiss_index \<Rightarrow> vector list \<Rightarrow> string + faiss_index" where
  "index_add ix x =
     (case ix of IndexFlatIP d xb \<Rightarrow>
        if list_all (\<lambda>row. length row = d) x then Inr (IndexFlatIP d (xb @ x))
        else Inl ''AssertionError'')"

text \<open>
  The result of a search for one query row and \<open>k\<close> neighbours, as the pairs of id
  and score: the \<open>k\<close> rows of greatest inner product with the query, by descending
  score, and when the index holds fewer than \<open>k\<close> rows the padding pairs of id \<open>-1\<close>
  and score \<open>-FLT_MAX\<close> after them.  Among rows of equal score FAISS fixes no order;
  the model takes the earlier row first.
\<close>

definition FLT_MAX :: real where
  "FLT_MAX = (2 - 1 / 2 ^ 23) * 2 ^ 127"

definition knn :: "vector list \<Rightarrow> vector \<Rightarrow> nat \<Rightarrow> (int \<times> real) list" where
  "knn xb q k =
     (let scored = zip (map int [0 ..< length xb]) (map (inner_product q) xb);
          best = take k (sort_key (\<lambda>p. - snd p) scored)
      in best @ replicate (k - length best) (- 1, - FLT_MAX))"

text \<open>\<open>index.search(x, k)\<close> asserts that the rows of \<open>x\<close> have the dimension of the
  index and that \<open>k\<close> is positive, and returns the arrays \<open>D\<close> of scores and \<open>I\<close> of
  ids, one row per query.\<close>

definition index_search ::
  "faiss_index \<Rightarrow> vector list \<Rightarrow> int \<Rightarrow> string + (real list list \<times> int list list)" where
  "index_search ix x k =
     (case ix of IndexFlatIP d xb \<Rightarrow>
        if \<not> list_all (\<lambda>row. length row = d) x then Inl ''AssertionError''
        else if \<not> k > 0 then Inl ''AssertionError''
        else Inr (map (\<lambda>q. map snd (knn xb q (nat k))) x,
                  map (\<lambda>q. map fst (knn xb q (nat k))) x))"

text \<open>
  Files: what \<open>faiss.write_index\<close> wrote, what \<open>json.dump\<close> wrote for a list of strings,
  or anything else.  \<open>faiss.read_index\<close> and \<open>json.load\<close> raise on a file of another
  kind.
\<close>

datatype stored_file = IndexFile faiss_index | PassagesFile "string list" | OtherFile string

type_synonym filesystem = "string \<rightharpoonup> stored_file"

definition read_index :: "stored_file \<Rightarrow> string + faiss_index" where
  "read_index f = (case f of IndexFile i \<Rightarrow> Inr i | _ \<Rightarrow> Inl ''read_index: not an index file'')"

definition json_load :: "stored_file \<Rightarrow> string + string list" where
  "json_load f = (case f of PassagesFile ps \<Rightarrow> Inr ps | _ \<Rightarrow> Inl ''json.load: not a passage list'')"

subsection \<open>\<open>EmbeddingsIndex\<close>\<close>

record embeddings_index =
  model_name :: string
  index :: "faiss_index option"
  passages :: "string list"

definition init :: "string \<Rightarrow> embeddings_index" where
  "init mn = \<lparr> model_name = mn, index = None, passages = [] \<rparr>"

text \<open>
  \<open>build\<close> mutates \<open>self\<close>; the result is the exception or \<open>()\<close>, with \<open>self\<close> as the
  call leaves it.  Line 21 assigns \<open>self.passages\<close> before the encoder runs, and line
  24 assigns the empty index to \<open>self.index\<close> before line 25 adds the rows to it.
\<close>

definition build ::
  "services \<Rightarrow> embeddings_index \<Rightarrow> string list \<Rightarrow> (error + unit) \<times> embeddings_index" where
  "build sv self ps =
     (if ps = [] then (Inl ValueError, self)
      else
        let self1 = self\<lparr>passages := ps\<rparr> in
        case encode sv (model_name self1) ps of
          Inl e \<Rightarrow> (Inl (ExternalError e), self1)
        | Inr vectors \<Rightarrow>
            let vectors = normalize_L2 vectors in
            (case index_flat_ip (dimension sv (model_name self1)) of
               Inl e \<Rightarrow> (Inl (ExternalError e), self1)
             | Inr empty_index \<Rightarrow>
                 let self2 = self1\<lparr>index := Some empty_index\<rparr> in
                 (case index_add empty_index vectors of
                    Inl e \<Rightarrow> (Inl (ExternalError e), self2)
                  | Inr filled \<Rightarrow> (Inr (), self2\<lparr>index := Some filled\<rparr>))))"

text \<open>\<open>save\<close> writes the index file, then the passages file.\<close>

definition save ::
  "filesystem \<Rightarrow> embeddings_index \<Rightarrow> string \<Rightarrow> string \<Rightarrow> (error + unit) \<times> filesystem" where
  "save fs self index_path passages_path =
     (case index self of
        None \<Rightarrow> (Inl RuntimeError, fs)
      | Some i \<Rightarrow>
          let fs1 = fs(index_path \<mapsto> IndexFile i);
              fs2 = fs1(passages_path \<mapsto> PassagesFile (passages self))
          in (Inr (), fs2))"

definition load ::
  "filesystem \<Rightarrow> embeddings_index \<Rightarrow> string \<Rightarrow> string \<Rightarrow> (error + unit) \<times> embeddings_index" where
  "load fs self index_path passages_path =
     (case (fs index_path, fs passages_path) of
        (Some fi, Some fp) \<Rightarrow>
          (case read_index fi of
             Inl e \<Rightarrow> (Inl (ExternalError e), self)
           | Inr i \<Rightarrow>
               let self1 = self\<lparr>index := Some i\<rparr> in
               (case json_load fp of
                  Inl e \<Rightarrow> (Inl (ExternalError e), self1)
                | Inr ps \<Rightarrow> (Inr (), self1\<lparr>passages := ps\<rparr>)))
      | _ \<Rightarrow> (Inl FileNotFoundError, self))"

record hit =
  hit_id :: int
  hit_score :: real
  hit_passage :: string

text \<open>\<open>query\<close> does not change \<open>self\<close>.  The loop runs over \<open>zip(I[0], D[0])\<close> and keeps
  the pairs whose id is a position of \<open>self.passages\<close>.\<close>

definition in_range :: "embeddings_index \<Rightarrow> int \<times> real \<Rightarrow> bool" where
  "in_range self p = (case p of (idx, sc) \<Rightarrow> \<not> (idx < 0 \<or> idx \<ge> int (length (passages self))))"

definition make_hit :: "embeddings_index \<Rightarrow> int \<times> real \<Rightarrow> hit" where
  "make_hit self p =
     (case p of (idx, sc) \<Rightarrow>
        \<lparr> hit_id = idx, hit_score = sc, hit_passage = passages self ! nat idx \<rparr>)"

definition query :: "services \<Rightarrow> embeddings_index \<Rightarrow> string \<Rightarrow> int \<Rightarrow> error + hit list" where
  "query sv self q top_k =
     (case index self of
        None \<Rightarrow> Inl RuntimeError
      | Some ix \<Rightarrow>
          (case encode sv (model_name self) [q] of
             Inl e \<Rightarrow> Inl (ExternalError e)
           | Inr q_vec \<Rightarrow>
               (case index_search ix (normalize_L2 q_vec) top_k of
                  Inl e \<Rightarrow> Inl (ExternalError e)
                | Inr (D, I) \<Rightarrow>
                    (case (I, D) of
                       (I0 # _, D0 # _) \<Rightarrow>
                         Inr (map (make_hit self) (filter (in_range self) (zip I0 D0)))
                     | _ \<Rightarrow> Inl IndexError))))"

section \<open>Results of a query and sample services\<close>

text \<open>What the specification says of one result of \<open>query\<close>: an id that is a position
  of the passages, the passage at that position, and a score between \<open>-1\<close> and \<open>1\<close>.\<close>

definition hit_ok :: "embeddings_index \<Rightarrow> hit \<Rightarrow> bool" where
  "hit_ok self h =
     (0 \<le> hit_id h \<and> hit_id h < int (length (passages self))
      \<and> hit_passage h = passages self ! nat (hit_id h)
      \<and> - 1 \<le> hit_score h \<and> hit_score h \<le> 1)"

text \<open>
  Sample services for the concrete cases below.  \<open>sample_services\<close>: an encoder of
  dimension 2 that always returns, with three passages whose rows have norm 1, 2 and
  1.  \<open>flaky_services\<close>: an encoder of dimension 1 that returns on the single text \<open>a\<close>
  and raises on every other input.
\<close>

definition sample_vector :: "string \<Rightarrow> vector" where
  "sample_vector t =
     (if t = ''p0'' then [0, 1]
      else if t = ''p1'' then [2, 0]
      else if t = ''p2'' then [- 1, 0]
      else [1, 0])"

definition sample_services :: services where
  "sample_services =
     \<lparr> encode = (\<lambda>mn ts. Inr (map sample_vector ts)),
       dimension = (\<lambda>mn. Some 2) \<rparr>"

definition flaky_services :: services where
  "flaky_services =
     \<lparr> encode = (\<lambda>mn ts. if ts = [''a''] then Inr [[1]] else Inl ''encoder failed''),
       dimension = (\<lambda>mn. Some 1) \<rparr>"

text \<open>The index that \<open>build\<close> makes of the three sample passages.\<close>

definition three_passages :: embeddings_index where
  "three_passages =
     \<lparr> model_name = ''all-MiniLM-L6-v2'',
       index = Some (IndexFlatIP 2 [[0, 1], [1, 0], [- 1, 0]]),
       passages = [''p0'', ''p1'', ''p2''] \<rparr>"

section \<open>The merge of streamlit\_app.py\<close>

text \<open>One round of the loop of lines 167 to 171, on the state \<open>(seen, deduped_passages)\<close>.\<close>

fun dedupe_step :: "string set \<times> string list \<Rightarrow> string \<Rightarrow> string set \<times> string list" where
  "dedupe_step (seen, deduped_passages) p =
     (if p \<in> seen then (seen, deduped_passages)
      else (insert p seen, deduped_passages @ [p]))"

definition dedupe :: "string list \<Rightarrow> string list" where
  "dedupe combined_passages = snd (foldl dedupe_step ({}, []) combined_passages)"

text \<open>Lines 162 to 179: the list passed to \<open>build\<close>, and the build of the new index.\<close>

definition deduped_passages_of :: "embeddings_index \<Rightarrow> embeddings_index \<Rightarrow> string list" where
  "deduped_passages_of emb_existing emb_uploaded =
     dedupe (passages emb_existing @ passages emb_uploaded)"

definition merge_indices ::
  "services \<Rightarrow> embeddings_index \<Rightarrow> embeddings_index \<Rightarrow> (error + unit) \<times> embeddings_index" where
  "merge_indices sv emb_existing emb_uploaded =
     build sv (init (model_name emb_existing)) (deduped_passages_of emb_existing emb_uploaded)"

text \<open>
  Lines 141 to 187: the index of the session after the upload.  Without an index in
  the session, or with one without passages, the uploaded index is taken as it is;
  a merge that fails leaves the session as it was.
\<close>

definition upload_index ::
  "services \<Rightarrow> embeddings_index option \<Rightarrow> embeddings_index \<Rightarrow> embeddings_index option" where
  "upload_index sv session_emb emb_uploaded =
     (case session_emb of
        None \<Rightarrow> Some emb_uploaded
      | Some emb_existing \<Rightarrow>
          if length (passages emb_existing) = 0 then Some emb_uploaded
          else (case merge_indices sv emb_existing emb_uploaded of
                  (Inl e, _) \<Rightarrow> session_emb
                | (Inr _, new_emb) \<Rightarrow> Some new_emb))"

text \<open>The list that keeps the first occurrence of every element, in the words of
  the specification.\<close>

function first_occurrences :: "'a list \<Rightarrow> 'a list" where
  "first_occurrences [] = []"
| "first_occurrences (x # xs) = x # first_occurrences (filter (\<lambda>y. y \<noteq> x) xs)"
  by pat_completeness auto
termination
  by (relation "measure length") (auto simp: less_Suc_eq_le)


section \<open>pdf\_utils.py, ocr\_utils.py and \<open>ingest_files\<close> of app.py\<close>

subsection \<open>Paths\<close>

text \<open>\<open>os.path.basename\<close> on a POSIX path: what follows the last \<open>/\<close>.\<close>

definition basename :: "string \<Rightarrow> string" where
  "basename p = rev (takeWhile (\<lambda>c. c \<noteq> CHR ''/'') (rev p))"

text \<open>
  The second component of \<open>os.path.splitext\<close> on a name without \<open>/\<close>: the text from the
  last dot on, when some character before that dot is not a dot, and nothing
  otherwise.
\<close>

definition splitext_ext :: "string \<Rightarrow> string" where
  "splitext_ext name =
     (let r = rev name;
          after = takeWhile (\<lambda>c. c \<noteq> CHR ''.'') r;
          rest = dropWhile (\<lambda>c. c \<noteq> CHR ''.'') r
      in if rest = [] then []
         else if list_ex (\<lambda>c. c \<noteq> CHR ''.'') (tl rest) then CHR ''.'' # rev after
         else [])"

text \<open>\<open>str.lower\<close> on the code points below 256.\<close>

definition char_lower :: "char \<Rightarrow> char" where
  "char_lower c =
     (let n = (of_char c :: nat) in
      if (65 \<le> n \<and> n \<le> 90) \<or> (192 \<le> n \<and> n \<le> 222 \<and> n \<noteq> 215) then char_of (n + 32)
      else c)"

definition str_lower :: "string \<Rightarrow> string" where
  "str_lower s = map char_lower s"

subsection \<open>The environment\<close>

text \<open>
  The file system and the libraries, as far as \<open>ingest_files\<close> uses them.
  \<open>fitz_page_texts\<close> stands for \<open>fitz.open\<close> and \<open>page.get_text()\<close> of every page,
  \<open>convert_from_path\<close> for pdf2image, \<open>image_open\<close> for \<open>PIL.Image.open\<close>, and
  \<open>image_to_string\<close> for the preprocessing and Tesseract; each may raise.  \<open>'img\<close> is the
  type of images.
\<close>

record 'img environment =
  abspath :: "string \<Rightarrow> string"
  path_exists :: "string \<Rightarrow> bool"
  pymupdf_available :: bool
  fitz_page_texts :: "string \<Rightarrow> string + string list"
  pdf2image_available :: bool
  convert_from_path :: "string \<Rightarrow> string + 'img list"
  image_open :: "string \<Rightarrow> string + 'img"
  image_to_string :: "'img \<Rightarrow> string + string"
  tiktoken :: tokenizer

subsection \<open>pdf\_utils.py and ocr\_utils.py\<close>

definition numbered :: "'a list \<Rightarrow> (int \<times> 'a) list" where
  "numbered xs = zip (map int [1 ..< Suc (length xs)]) xs"

definition pdf_selectable_text :: "'img environment \<Rightarrow> string \<Rightarrow> error + (int \<times> string) list" where
  "pdf_selectable_text env pdf_path =
     (if \<not> pymupdf_available env then Inr []
      else case fitz_page_texts env pdf_path of
             Inl e \<Rightarrow> Inl (ExternalError e)
           | Inr texts \<Rightarrow> Inr (numbered (map str_strip texts)))"

definition pdf_to_images :: "'img environment \<Rightarrow> string \<Rightarrow> error + 'img list" where
  "pdf_to_images env pdf_path =
     (if \<not> pdf2image_available env then Inl RuntimeError
      else case convert_from_path env pdf_path of
             Inl e \<Rightarrow> Inl (ExternalError e)
           | Inr pages \<Rightarrow> Inr pages)"

definition pdf_pages_text ::
  "'img environment \<Rightarrow> string \<Rightarrow> bool \<Rightarrow> error + (int \<times> string) list" where
  "pdf_pages_text env pdf_path use_selectable_first =
     (let fallback =
            (case pdf_to_images env pdf_path of
               Inl e \<Rightarrow> Inl e
             | Inr imgs \<Rightarrow> Inr (numbered (map (\<lambda>img. []) imgs)))
      in if use_selectable_first then
           (case pdf_selectable_text env pdf_path of
              Inl e \<Rightarrow> Inl e
            | Inr sel \<Rightarrow> if sel \<noteq> [] then Inr sel else fallback)
         else fallback)"

definition image_to_text :: "'img environment \<Rightarrow> 'img \<Rightarrow> error + string" where
  "image_to_text env img =
     (case image_to_string env img of Inl e \<Rightarrow> Inl (ExternalError e) | Inr t \<Rightarrow> Inr t)"

subsection \<open>\<open>ingest_files\<close>\<close>

text \<open>A loop that an exception leaves: the first error ends it.\<close>

fun foldl_err :: "('s \<Rightarrow> 'a \<Rightarrow> error + 's) \<Rightarrow> 's \<Rightarrow> 'a list \<Rightarrow> error + 's" where
  "foldl_err f s [] = Inr s"
| "foldl_err f s (x # xs) = (case f s x of Inl e \<Rightarrow> Inl e | Inr s' \<Rightarrow> foldl_err f s' xs)"

text \<open>\<open>images[page_no - 1]\<close>, with Python's negative indices.\<close>

definition list_get :: "'a list \<Rightarrow> int \<Rightarrow> error + 'a" where
  "list_get items k =
     (if 0 \<le> k \<and> k < int (length items) then Inr (items ! nat k)
      else if k < 0 \<and> - int (length items) \<le> k then Inr (items ! nat (k + int (length items)))
      else Inl IndexError)"

text \<open>One round of \<open>for page_no, txt in pages\<close>, on the state \<open>(chunks_meta, images)\<close>.\<close>

definition page_step ::
  "'img environment \<Rightarrow> string \<Rightarrow> string \<Rightarrow> int \<Rightarrow> int \<Rightarrow>
   passage list \<times> 'img list option \<Rightarrow> int \<times> string \<Rightarrow>
   error + (passage list \<times> 'img list option)" where
  "page_step env p name max_tokens_per_chunk overlap_tokens st pg =
     (case (st, pg) of ((chunks_meta, images), (page_no, txt)) \<Rightarrow>
        if txt \<noteq> [] \<and> str_strip txt \<noteq> [] then
          Inr (chunks_meta @ chunk_page_text (tiktoken env) txt name page_no
                               max_tokens_per_chunk overlap_tokens, images)
        else
          (case (case images of None \<Rightarrow> pdf_to_images env p | Some imgs \<Rightarrow> Inr imgs) of
             Inl e \<Rightarrow> Inl e
           | Inr imgs \<Rightarrow>
               (case list_get imgs (page_no - 1) of
                  Inl e \<Rightarrow> Inl e
                | Inr img \<Rightarrow>
                    (case image_to_text env img of
                       Inl e \<Rightarrow> Inl e
                     | Inr ocr_text \<Rightarrow>
                         Inr (chunks_meta @ chunk_page_text (tiktoken env) ocr_text name page_no
                                              max_tokens_per_chunk overlap_tokens,
                              Some imgs)))))"

text \<open>One round of \<open>for p in paths\<close>, on the state \<open>(chunks_meta, printed)\<close>, \<open>printed\<close>
  being the lines written by \<open>print\<close>.\<close>

definition file_step ::
  "'img environment \<Rightarrow> bool \<Rightarrow> int \<Rightarrow> int \<Rightarrow>
   passage list \<times> string list \<Rightarrow> string \<Rightarrow> error + (passage list \<times> string list)" where
  "file_step env use_selectable_text max_tokens_per_chunk overlap_tokens st p0 =
     (case st of (chunks_meta, printed) \<Rightarrow>
        let p = abspath env p0 in
        if \<not> path_exists env p then
          Inr (chunks_meta, printed @ [''[WARN] '' @ p @ '' not found, skipping.''])
        else
          let name = basename p;
              ext = str_lower (splitext_ext name)
          in if ext = ''.pdf'' then
               (case pdf_pages_text env p use_selectable_text of
                  Inl e \<Rightarrow> Inl e
                | Inr pages \<Rightarrow>
                    (case foldl_err (page_step env p name max_tokens_per_chunk overlap_tokens)
                            (chunks_meta, None) pages of
                       Inl e \<Rightarrow> Inl e
                     | Inr (chunks_meta', images) \<Rightarrow> Inr (chunks_meta', printed)))
             else
               (case image_open env p of
                  Inl e \<Rightarrow> Inl (ExternalError e)
                | Inr img \<Rightarrow>
                    (case image_to_text env img of
                       Inl e \<Rightarrow> Inl e
                     | Inr txt \<Rightarrow>
                         Inr (chunks_meta @ chunk_page_text (tiktoken env) txt name 1
                                              max_tokens_per_chunk overlap_tokens,
                              printed))))"

definition ingest_from ::
  "'img environment \<Rightarrow> bool \<Rightarrow> int \<Rightarrow> int \<Rightarrow> passage list \<times> string list \<Rightarrow> string list \<Rightarrow>
   error + (passage list \<times> string list)" where
  "ingest_from env use_selectable_text max_tokens_per_chunk overlap_tokens st paths =
     foldl_err (file_step env use_selectable_text max_tokens_per_chunk overlap_tokens) st paths"

text \<open>The result of \<open>ingest_files\<close>: the exception, or \<open>chunks_meta\<close> with the printed
  lines.\<close>

definition ingest_files ::
  "'img environment \<Rightarrow> string list \<Rightarrow> bool \<Rightarrow> int \<Rightarrow> int \<Rightarrow>
   error + (passage list \<times> string list)" where
  "ingest_files env paths use_selectable_text max_tokens_per_chunk overlap_tokens =
     ingest_from env use_selectable_text max_tokens_per_chunk overlap_tokens ([], []) paths"

text \<open>The exception or the passages, without the printed lines.\<close>

definition outcome :: "error + (passage list \<times> string list) \<Rightarrow> error + passage list" where
  "outcome r = (case r of Inl e \<Rightarrow> Inl e | Inr (chunks_meta, printed) \<Rightarrow> Inr chunks_meta)"

text \<open>
  A sample environment for the concrete cases below: an image \<open>/in/scan.png\<close> that
  Tesseract reads as one sentence, a text file \<open>/in/notes.txt\<close> that PIL cannot open,
  a PDF \<open>/in/stmt.PDF\<close> of two pages of selectable text, and nothing else.
\<close>

definition sample_environment :: "string environment" where
  "sample_environment =
     \<lparr> abspath = (\<lambda>p. p),
       path_exists = (\<lambda>p. p = ''/in/scan.png'' \<or> p = ''/in/notes.txt'' \<or> p = ''/in/stmt.PDF''),
       pymupdf_available = True,
       fitz_page_texts = (\<lambda>p. if p = ''/in/stmt.PDF'' then Inr [''Paid 20. '', ''Fee 1.'']
                               else Inl ''cannot open document''),
       pdf2image_available = False,
       convert_from_path = (\<lambda>p. Inl ''no pdf2image''),
       image_open = (\<lambda>p. if p = ''/in/scan.png'' then Inr ''scan''
                          else Inl ''cannot identify image file''),
       image_to_string = (\<lambda>img. Inr ''Balance is 500.''),
       tiktoken = None \<rparr>"

section \<open>Properties of the string primitives and of sentence splitting\<close>

lemma dropWhile_nonempty_iff: "dropWhile P xs \<noteq> [] \<longleftrightarrow> (\<exists>x\<in>set xs. \<not> P x)"
  by (induction xs) auto

lemma str_strip_nonempty_iff: "str_strip s \<noteq> [] \<longleftrightarrow> (\<exists>c\<in>set s. \<not> isspace c)"
proof -
  have "str_strip s \<noteq> [] \<longleftrightarrow> (\<exists>c\<in>set (dropWhile isspace s). \<not> isspace c)"
    by (simp add: str_strip_def dropWhile_nonempty_iff)
  also have "\<dots> \<longleftrightarrow> (\<exists>c\<in>set s. \<not> isspace c)"
    by (induction s) auto
  finally show ?thesis .
qed

lemma rev_dropWhile_rev_noop:
  "xs \<noteq> [] \<Longrightarrow> \<not> P (last xs) \<Longrightarrow> rev (dropWhile P (rev xs)) = xs"
  by (cases xs rule: rev_cases) auto

lemma dropWhile_noop: "xs = [] \<or> \<not> P (hd xs) \<Longrightarrow> dropWhile P xs = xs"
  by (cases xs) auto

lemma hd_dropWhile_not: "dropWhile P xs \<noteq> [] \<Longrightarrow> \<not> P (hd (dropWhile P xs))"
  using hd_dropWhile by blast

lemma trim_right_prefix:
  "\<exists>ws. xs = rev (dropWhile P (rev xs)) @ ws \<and> (\<forall>w\<in>set ws. P w)"
proof -
  have "rev xs = takeWhile P (rev xs) @ dropWhile P (rev xs)" by simp
  then have "xs = rev (dropWhile P (rev xs)) @ rev (takeWhile P (rev xs))"
    by (metis rev_append rev_rev_ident)
  moreover have "\<forall>w\<in>set (rev (takeWhile P (rev xs))). P w"
    by (auto dest: set_takeWhileD)
  ultimately show ?thesis by blast
qed

lemma str_strip_hd:
  assumes "str_strip s \<noteq> []" shows "\<not> isspace (hd (str_strip s))"
proof -
  let ?v = "dropWhile isspace s"
  obtain ws where v: "?v = str_strip s @ ws"
    using trim_right_prefix[of ?v isspace] by (auto simp: str_strip_def)
  with assms have "hd ?v = hd (str_strip s)" by (metis hd_append2)
  moreover have "?v \<noteq> []" using v assms by auto
  ultimately show ?thesis using hd_dropWhile_not[of isspace s] by simp
qed

lemma str_strip_last:
  assumes "str_strip s \<noteq> []" shows "\<not> isspace (last (str_strip s))"
proof -
  let ?r = "dropWhile isspace (rev (dropWhile isspace s))"
  have "?r \<noteq> []" using assms by (simp add: str_strip_def)
  then have "\<not> isspace (hd ?r)" by (rule hd_dropWhile_not)
  moreover have "last (str_strip s) = hd ?r"
    using \<open>?r \<noteq> []\<close> by (simp add: str_strip_def last_rev)
  ultimately show ?thesis by simp
qed

lemma str_strip_idem: "str_strip (str_strip s) = str_strip s"
proof (cases "str_strip s = []")
  case True
  have "str_strip [] = []" by (simp add: str_strip_def)
  with True show ?thesis by simp
next
  case False
  have "dropWhile isspace (str_strip s) = str_strip s"
    using str_strip_hd[OF False] by (intro dropWhile_noop) simp
  moreover have "rev (dropWhile isspace (rev (str_strip s))) = str_strip s"
    using False str_strip_last[OF False] by (rule rev_dropWhile_rev_noop)
  ultimately show ?thesis by (simp add: str_strip_def[of "str_strip s"])
qed

lemma has_boundary_append_left: "has_boundary xs \<Longrightarrow> has_boundary (ys @ xs)"
proof (induction ys)
  case Nil then show ?case by simp
next
  case (Cons y ys)
  then have "has_boundary (ys @ xs)" by simp
  then show ?case by (cases "ys @ xs") auto
qed

lemma has_boundary_append_right: "has_boundary xs \<Longrightarrow> has_boundary (xs @ ys)"
  by (induction xs rule: has_boundary.induct) auto

lemma has_boundary_strip: "has_boundary (str_strip s) \<Longrightarrow> has_boundary s"
proof -
  assume h: "has_boundary (str_strip s)"
  obtain ws where "dropWhile isspace s = str_strip s @ ws"
    using trim_right_prefix[of "dropWhile isspace s" isspace] by (auto simp: str_strip_def)
  with h have "has_boundary (dropWhile isspace s)"
    by (simp add: has_boundary_append_right)
  then have "has_boundary (takeWhile isspace s @ dropWhile isspace s)"
    by (rule has_boundary_append_left)
  then show ?thesis by simp
qed

lemma sent_split_re_no_boundary:
  "\<not> has_boundary s \<Longrightarrow> sent_split_re cur s = [rev cur @ s]"
proof (induction s arbitrary: cur)
  case Nil then show ?case by simp
next
  case (Cons c cs)
  then show ?case by (cases cs) auto
qed

lemma split_aux_empty_iff: "split_aux cur s = [] \<longleftrightarrow> cur = [] \<and> (\<forall>c\<in>set s. isspace c)"
  by (induction s arbitrary: cur) auto

lemma str_split_empty_iff: "str_split s = [] \<longleftrightarrow> (\<forall>c\<in>set s. isspace c)"
  by (simp add: str_split_def split_aux_empty_iff)

lemma split_into_sentences_single:
  assumes "\<exists>c\<in>set t. \<not> isspace c" and "\<not> has_boundary t"
  shows "split_into_sentences t = [str_strip t]"
proof -
  have ne: "str_strip t \<noteq> []" using assms(1) by (simp add: str_strip_nonempty_iff)
  have "\<not> has_boundary (str_strip t)" using assms(2) has_boundary_strip by blast
  then have "sent_split_re [] (str_strip t) = [str_strip t]"
    by (simp add: sent_split_re_no_boundary)
  then show ?thesis using ne by (simp add: split_into_sentences_def Let_def str_strip_idem)
qed

lemma split_into_sentences_blank:
  assumes "\<forall>c\<in>set t. isspace c"
  shows "split_into_sentences t = []"
proof -
  have "str_strip t = []" using assms str_strip_nonempty_iff by blast
  then show ?thesis by (simp add: split_into_sentences_def)
qed

lemma word_fold_piece_nonempty:
  "ws \<noteq> [] \<Longrightarrow> fst (snd (foldl (word_step tk M) st ws)) \<noteq> []"
proof (induction ws rule: rev_induct)
  case Nil then show ?case by simp
next
  case (snoc w ws)
  obtain a b c where "foldl (word_step tk M) st ws = (a, b, c)" by (cases "foldl (word_step tk M) st ws")
  then show ?case by (simp add: Let_def)
qed

lemma pack_single_nonempty:
  assumes "str_split s \<noteq> []"
  shows "pack_sentences tk [s] M \<noteq> []"
proof (cases "tokens_length tk s > M")
  case True
  obtain a b c where f: "foldl (word_step tk M) ([], [], 0) (str_split s) = (a, b, c)"
    by (cases "foldl (word_step tk M) ([], [], 0) (str_split s)")
  have "b \<noteq> []" using word_fold_piece_nonempty[OF assms, of tk M "([], [], 0)"] f by simp
  then show ?thesis using True f by (simp add: pack_sentences_def Let_def)
next
  case False
  then show ?thesis by (simp add: pack_sentences_def Let_def)
qed

lemma overlap_fold_length:
  "length (foldl (overlap_step ov) acc cs) = length acc + length cs"
  by (induction cs arbitrary: acc) (simp_all add: overlap_step_def Let_def)

lemma chunk_sentences_length:
  "length (chunk_sentences_to_chunks tk ss M ov) = (if ss = [] then 0 else length (pack_sentences tk ss M))"
proof (cases "ss \<noteq> [] \<and> ov > 0 \<and> length (pack_sentences tk ss M) > 1")
  case True
  then have "pack_sentences tk ss M \<noteq> []" by auto
  then have "length (foldl (overlap_step ov) [hd (pack_sentences tk ss M)] (tl (pack_sentences tk ss M)))
        = length (pack_sentences tk ss M)"
    by (simp add: overlap_fold_length)
  with True show ?thesis by (simp add: chunk_sentences_to_chunks_def Let_def)
next
  case False
  then show ?thesis by (auto simp: chunk_sentences_to_chunks_def Let_def)
qed

lemma chunk_page_text_length:
  "length (chunk_page_text tk t src p M ov) =
   length (chunk_sentences_to_chunks tk (split_into_sentences t) M ov)"
  by (simp add: chunk_page_text_def Let_def del: upt_Suc)

lemma split_aux_space:
  "isspace c \<Longrightarrow> split_aux cur (a @ c # b) = split_aux cur a @ split_aux [] b"
  by (induction a arbitrary: cur) auto

lemma split_aux_trailing:
  "list_all isspace ws \<Longrightarrow> split_aux cur (s @ ws) = split_aux cur s"
proof (induction ws arbitrary: s cur)
  case Nil then show ?case by simp
next
  case (Cons w ws)
  have "split_aux cur (s @ w # ws) = split_aux cur s @ split_aux [] ws"
    using Cons.prems by (simp add: split_aux_space)
  moreover have "split_aux [] ([] @ ws) = split_aux [] []"
    using Cons.IH[of "[]" "[]"] Cons.prems by simp
  ultimately show ?case by simp
qed

lemma split_aux_leading:
  "split_aux [] (dropWhile isspace s) = split_aux [] s"
  by (induction s) auto

lemma str_split_strip: "str_split (str_strip s) = str_split s"
proof -
  obtain ws where v: "dropWhile isspace s = str_strip s @ ws" and w: "\<forall>w\<in>set ws. isspace w"
    using trim_right_prefix[of "dropWhile isspace s" isspace] by (auto simp: str_strip_def)
  have "split_aux [] (str_strip s @ ws) = split_aux [] (str_strip s)"
    using w by (intro split_aux_trailing) (simp add: list_all_iff)
  then show ?thesis using v split_aux_leading[of s] by (simp add: str_split_def)
qed

lemma str_split_append_space:
  "str_split (a @ '' '' @ b) = str_split a @ str_split b"
  by (simp add: str_split_def split_aux_space isspace_def)

lemma str_split_Nil: "str_split [] = []"
  by (simp add: str_split_def)

lemma str_split_join: "str_split (str_join '' '' xs) = concat (map str_split xs)"
proof (induction "'' ''" xs rule: str_join.induct)
  case 1 then show ?case by (simp add: str_split_Nil)
next
  case (2 x) then show ?case by simp
next
  case (3 x y ys)
  have "str_split (x @ '' '' @ str_join '' '' (y # ys))
        = str_split x @ str_split (str_join '' '' (y # ys))"
    by (rule str_split_append_space)
  with 3 show ?case by simp
qed

lemma split_aux_words:
  "list_all (\<lambda>c. \<not> isspace c) cur \<Longrightarrow> list_all is_word (split_aux cur s)"
proof (induction s arbitrary: cur)
  case Nil then show ?case by (simp add: is_word_def)
next
  case (Cons c cs) then show ?case by (auto simp: is_word_def)
qed

lemma str_split_words: "list_all is_word (str_split s)"
  by (simp add: str_split_def split_aux_words)

lemma split_aux_word:
  "list_all (\<lambda>c. \<not> isspace c) w \<Longrightarrow> split_aux cur w = (if cur = [] \<and> w = [] then [] else [rev cur @ w])"
  by (induction w arbitrary: cur) auto

lemma str_split_word: "is_word w \<Longrightarrow> str_split w = [w]"
  by (simp add: str_split_def split_aux_word is_word_def)

lemma str_split_word_space: "is_word w \<Longrightarrow> str_split (w @ '' '') = [w]"
  using str_split_append_space[of w "[]"] by (simp add: str_split_word str_split_Nil)

lemma concat_split_words: "list_all is_word ws \<Longrightarrow> concat (map str_split ws) = ws"
  by (induction ws) (simp_all add: str_split_word)

lemma str_split_join_words: "list_all is_word ws \<Longrightarrow> str_split (str_join '' '' ws) = ws"
  by (simp add: str_split_join concat_split_words)

section \<open>Properties of the overlap loop\<close>

lemmas chunk_eval_defs = chunk_page_text_def chunk_sentences_to_chunks_def pack_sentences_def
  split_into_sentences_def tokens_length_def str_split_def str_strip_def isspace_def
  is_terminator_def overlap_step_def overlap_words_def approx_words_def make_passage_def
  str_of_int_def Let_def

lemma overlap_words_drop:
  "overlap_words ov prev = drop (length (str_split prev) - approx_words ov) (str_split prev)"
  by (simp add: overlap_words_def Let_def)

lemma overlap_words_suffix: "suffix (overlap_words ov prev) (str_split prev)"
  by (simp add: overlap_words_drop suffix_drop)

lemma overlap_words_length:
  "length (overlap_words ov prev) = min (approx_words ov) (length (str_split prev))"
  by (simp add: overlap_words_drop)

lemma overlap_words_are_words: "list_all is_word (overlap_words ov prev)"
  using str_split_words[of prev]
  by (auto simp: overlap_words_drop list_all_iff dest: in_set_dropD)

lemma approx_words_pos: "1 \<le> approx_words ov"
  by (simp add: approx_words_def)

lemma overlap_fold_nth:
  assumes "acc \<noteq> []"
  shows "take (length acc) (foldl (overlap_step ov) acc cs) = acc
     \<and> (\<forall>j<length cs. foldl (overlap_step ov) acc cs ! (length acc + j)
           = str_join '' '' (overlap_words ov (foldl (overlap_step ov) acc cs ! (length acc + j - 1))
                              @ str_split (cs ! j)))"
proof (induction cs rule: rev_induct)
  case Nil
  then show ?case by simp
next
  case (snoc c cs)
  let ?R = "foldl (overlap_step ov) acc cs"
  have len: "length ?R = length acc + length cs" by (rule overlap_fold_length)
  have ne: "?R \<noteq> []" using assms len by auto
  have R': "overlap_step ov ?R c
            = ?R @ [str_join '' '' (overlap_words ov (last ?R) @ str_split c)]"
    by (simp add: overlap_step_def Let_def)
  have lastR: "last ?R = ?R ! (length acc + length cs - 1)"
    using ne len by (simp add: last_conv_nth)
  show ?case
  proof (intro conjI allI impI)
    show "take (length acc) (foldl (overlap_step ov) acc (cs @ [c])) = acc"
      using snoc.IH len by (simp add: R')
  next
    fix j assume j: "j < length (cs @ [c])"
    show "foldl (overlap_step ov) acc (cs @ [c]) ! (length acc + j)
          = str_join '' '' (overlap_words ov (foldl (overlap_step ov) acc (cs @ [c]) ! (length acc + j - 1))
                              @ str_split ((cs @ [c]) ! j))"
    proof (cases "j < length cs")
      case True
      then have a: "(?R @ [str_join '' '' (overlap_words ov (last ?R) @ str_split c)]) ! (length acc + j)
                 = ?R ! (length acc + j)"
        using len by (simp add: nth_append)
      have b: "(?R @ [str_join '' '' (overlap_words ov (last ?R) @ str_split c)]) ! (length acc + j - 1)
                 = ?R ! (length acc + j - 1)"
      proof -
        have "length acc + j - 1 < length ?R" using len True by arith
        then show ?thesis by (simp add: nth_append)
      qed
      show ?thesis using snoc.IH True a b by (simp add: R' nth_append)
    next
      case False
      with j have jj: "j = length cs" by simp
      have a: "(?R @ [str_join '' '' (overlap_words ov (last ?R) @ str_split c)]) ! (length acc + j)
                 = str_join '' '' (overlap_words ov (last ?R) @ str_split c)"
        using len jj by (simp add: nth_append)
      have b: "(?R @ [str_join '' '' (overlap_words ov (last ?R) @ str_split c)]) ! (length acc + j - 1)
                 = last ?R"
        using len jj ne assms lastR by (simp add: nth_append) 
      show ?thesis using a b jj by (simp add: R')
    qed
  qed
qed

lemma chunk_overlapped_unfold:
  assumes "ov > 0" "length (pack_sentences tk ss M) > 1"
  shows "chunk_sentences_to_chunks tk ss M ov
         = foldl (overlap_step ov) [hd (pack_sentences tk ss M)] (tl (pack_sentences tk ss M))"
proof -
  have "ss \<noteq> []" using assms(2) by (auto simp: pack_sentences_def)
  then show ?thesis using assms by (simp add: chunk_sentences_to_chunks_def Let_def)
qed

lemma chunk_overlap_nth:
  assumes "ov > 0" "length (pack_sentences tk ss M) > 1"
      and "0 < i" "i < length (pack_sentences tk ss M)"
  shows "chunk_sentences_to_chunks tk ss M ov ! i
         = str_join '' '' (overlap_words ov (chunk_sentences_to_chunks tk ss M ov ! (i - 1))
                            @ str_split (pack_sentences tk ss M ! i))"
proof -
  let ?pre = "pack_sentences tk ss M"
  have ne: "?pre \<noteq> []" using assms(2) by auto
  have j: "i - 1 < length (tl ?pre)" using assms by simp
  have "foldl (overlap_step ov) [hd ?pre] (tl ?pre) ! (length [hd ?pre] + (i - 1))
        = str_join '' '' (overlap_words ov (foldl (overlap_step ov) [hd ?pre] (tl ?pre) ! (length [hd ?pre] + (i - 1) - 1))
                           @ str_split (tl ?pre ! (i - 1)))"
    using overlap_fold_nth[of "[hd ?pre]" ov "tl ?pre"] j by blast
  moreover have "tl ?pre ! (i - 1) = ?pre ! i"
    using assms ne by (simp add: nth_tl)
  ultimately show ?thesis
    using assms by (simp add: chunk_overlapped_unfold)
qed

lemma chunk_overlap_first:
  assumes "ov > 0" "length (pack_sentences tk ss M) > 1"
  shows "chunk_sentences_to_chunks tk ss M ov ! 0 = pack_sentences tk ss M ! 0"
proof -
  let ?pre = "pack_sentences tk ss M"
  have ne: "?pre \<noteq> []" using assms(2) by auto
  have "take (length [hd ?pre]) (foldl (overlap_step ov) [hd ?pre] (tl ?pre)) = [hd ?pre]"
    using overlap_fold_nth[of "[hd ?pre]" ov "tl ?pre"] by blast
  then have "foldl (overlap_step ov) [hd ?pre] (tl ?pre) ! 0 = hd ?pre"
    by (metis length_Cons list.size(3) nth_Cons_0 nth_take zero_less_Suc)
  then show ?thesis using assms ne by (simp add: chunk_overlapped_unfold hd_conv_nth)
qed

lemma chunk_overlap_nth_words:
  assumes "ov > 0" "length (pack_sentences tk ss M) > 1"
      and "0 < i" "i < length (pack_sentences tk ss M)"
  shows "str_split (chunk_sentences_to_chunks tk ss M ov ! i)
         = overlap_words ov (chunk_sentences_to_chunks tk ss M ov ! (i - 1))
           @ str_split (pack_sentences tk ss M ! i)"
proof -
  let ?ow = "overlap_words ov (chunk_sentences_to_chunks tk ss M ov ! (i - 1))"
  have "list_all is_word (?ow @ str_split (pack_sentences tk ss M ! i))"
    by (simp add: overlap_words_are_words str_split_words)
  then show ?thesis
    using chunk_overlap_nth[OF assms] by (simp add: str_split_join_words)
qed

section \<open>Properties of the packing loops under the word-count fallback\<close>

lemma words_le_tokens: "int (length (str_split s)) \<le> tokens_length None s"
proof -
  have "\<And>n::int. 0 \<le> n \<Longrightarrow> n \<le> max 1 (n * 13 div 10)" by arith
  then show ?thesis by (simp add: tokens_length_def)
qed

lemma word_tokens_one: "is_word w \<Longrightarrow> tokens_length None (w @ '' '') = 1"
  by (simp add: tokens_length_def str_split_word_space)

lemma str_split_strip_join_words:
  "list_all is_word ws \<Longrightarrow> str_split (str_strip (str_join '' '' ws)) = ws"
  by (simp add: str_split_strip str_split_join_words)

lemma str_split_strip_join:
  "str_split (str_strip (str_join '' '' xs)) = concat (map str_split xs)"
  by (simp add: str_split_strip str_split_join)

lemma word_step_inv:
  assumes "1 \<le> m" "is_word w" "word_inv m st"
  shows "word_inv m (word_step None m st w)"
proof -
  obtain chunks piece pt where st: "st = (chunks, piece, pt)" by (cases st)
  have inv: "list_all (\<lambda>c. int (length (str_split c)) \<le> m) chunks"
            "list_all is_word piece" "pt = int (length piece)" "pt \<le> m"
    using assms(3) by (simp_all add: word_inv_def st)
  show ?thesis
  proof (cases "pt + 1 > m")
    case True
    have "int (length (str_split (str_strip (str_join '' '' piece)))) \<le> m"
      using inv by (simp add: str_split_strip_join_words)
    then show ?thesis
      using True inv assms(1,2) by (simp add: st word_inv_def word_tokens_one)
  next
    case False
    then show ?thesis
      using inv assms(2) by (simp add: st word_inv_def word_tokens_one)
  qed
qed

lemma word_fold_inv:
  assumes "1 \<le> m" "list_all is_word ws" "word_inv m st"
  shows "word_inv m (foldl (word_step None m) st ws)"
  using assms(2,3)
proof (induction ws arbitrary: st)
  case Nil then show ?case by simp
next
  case (Cons w ws)
  then show ?case using word_step_inv[OF assms(1)] by simp
qed

lemma sent_step_inv:
  assumes "1 \<le> m" "sent_inv m st"
  shows "sent_inv m (sent_step None m st s)"
proof -
  obtain chunks cur ct where st: "st = (chunks, cur, ct)" by (cases st)
  have inv: "list_all (\<lambda>c. int (length (str_split c)) \<le> m) chunks"
            "int (length (concat (map str_split cur))) \<le> ct" "ct \<le> m"
    using assms(2) by (simp_all add: sent_inv_def st)
  have flushed: "int (length (str_split (str_strip (str_join '' '' cur)))) \<le> m"
    using inv by (simp add: str_split_strip_join)
  show ?thesis
  proof (cases "tokens_length None s > m")
    case long: True
    obtain chunks' piece pt where f:
      "foldl (word_step None m) (chunks, [], 0) (str_split s) = (chunks', piece, pt)"
      by (cases "foldl (word_step None m) (chunks, [], 0) (str_split s)")
    have "word_inv m (chunks, [], 0)"
      using inv assms(1) by (simp add: word_inv_def)
    then have "word_inv m (chunks', piece, pt)"
      using word_fold_inv[OF assms(1) str_split_words, of "(chunks, [], 0)" s] f by simp
    then have w: "list_all (\<lambda>c. int (length (str_split c)) \<le> m) chunks'"
              "list_all is_word piece" "pt = int (length piece)" "pt \<le> m"
      by (simp_all add: word_inv_def)
    have pj: "str_split (str_join '' '' piece) = piece"
      using w(2) by (rule str_split_join_words)
    show ?thesis
    proof (cases "piece = []")
      case True
      then show ?thesis using long f w inv by (simp add: st sent_inv_def)
    next
      case ne: False
      show ?thesis
      proof (cases "ct + pt \<le> m")
        case True
        then show ?thesis using long f w inv ne pj by (simp add: st sent_inv_def)
      next
        case False
        then show ?thesis using long f w inv ne pj flushed by (simp add: st sent_inv_def)
      qed
    qed
  next
    case short: False
    have t: "int (length (str_split s)) \<le> tokens_length None s" by (rule words_le_tokens)
    show ?thesis
    proof (cases "ct + tokens_length None s \<le> m")
      case True
      then show ?thesis using short inv t by (simp add: st sent_inv_def)
    next
      case False
      then show ?thesis using short inv t flushed by (simp add: st sent_inv_def)
    qed
  qed
qed

lemma sent_fold_inv:
  assumes "1 \<le> m" "sent_inv m st"
  shows "sent_inv m (foldl (sent_step None m) st ss)"
  using assms(2)
proof (induction ss arbitrary: st)
  case Nil then show ?case by simp
next
  case (Cons s ss)
  then show ?case using sent_step_inv[OF assms(1)] by simp
qed

lemma pack_sentences_words:
  assumes "1 \<le> m" "c \<in> set (pack_sentences None ss m)"
  shows "int (length (str_split c)) \<le> m"
proof -
  obtain chunks cur ct where f: "foldl (sent_step None m) ([], [], 0) ss = (chunks, cur, ct)"
    by (cases "foldl (sent_step None m) ([], [], 0) ss")
  have "sent_inv m ([], [], 0)" using assms(1) by (simp add: sent_inv_def)
  then have "sent_inv m (chunks, cur, ct)"
    using sent_fold_inv[OF assms(1), of "([], [], 0)" ss] f by simp
  then have inv: "list_all (\<lambda>c. int (length (str_split c)) \<le> m) chunks"
            "int (length (concat (map str_split cur))) \<le> ct" "ct \<le> m"
    by (simp_all add: sent_inv_def)
  have "int (length (str_split (str_strip (str_join '' '' cur)))) \<le> m"
    using inv by (simp add: str_split_strip_join)
  then show ?thesis
    using assms(2) inv(1) f by (auto simp: pack_sentences_def list_all_iff split: if_splits)
qed

lemma tokens_length_mono_words:
  "int (length (str_split c)) \<le> k \<Longrightarrow> tokens_length None c \<le> max 1 (k * 13 div 10)"
proof -
  assume "int (length (str_split c)) \<le> k"
  then have "int (length (str_split c)) * 13 div 10 \<le> k * 13 div 10"
    by (intro zdiv_mono1) simp_all
  then show ?thesis by (simp add: tokens_length_def max_def)
qed

lemma chunk_no_overlap:
  "\<not> (ov > 0 \<and> length (pack_sentences tk ss m) > 1) \<Longrightarrow>
   set (chunk_sentences_to_chunks tk ss m ov) \<subseteq> set (pack_sentences tk ss m)"
  by (auto simp: chunk_sentences_to_chunks_def Let_def split: if_splits)

lemma chunk_words_bound:
  assumes "1 \<le> m" and "c \<in> set (chunk_sentences_to_chunks None ss m ov)"
  shows "int (length (str_split c)) \<le> m + (if 0 < ov then int (approx_words ov) else 0)"
proof (cases "ov > 0 \<and> length (pack_sentences None ss m) > 1")
  case False
  then have "c \<in> set (pack_sentences None ss m)"
    using assms(2) chunk_no_overlap by blast
  then have "int (length (str_split c)) \<le> m"
    using assms(1) pack_sentences_words by blast
  then show ?thesis by simp
next
  case True
  let ?pre = "pack_sentences None ss m"
  let ?post = "chunk_sentences_to_chunks None ss m ov"
  have len: "length ?post = length ?pre"
    using True by (auto simp: chunk_sentences_length pack_sentences_def)
  obtain i where i: "i < length ?post" "c = ?post ! i"
    using assms(2) by (auto simp: in_set_conv_nth)
  have pre_i: "int (length (str_split (?pre ! i))) \<le> m"
    using i(1) len assms(1) pack_sentences_words[of m "?pre ! i" ss] by simp
  show ?thesis
  proof (cases "i = 0")
    case True
    then have "c = ?pre ! 0" using i(2) chunk_overlap_first \<open>ov > 0 \<and> length ?pre > 1\<close> by simp
    then show ?thesis using pre_i True by simp
  next
    case False
    then have "str_split c = overlap_words ov (?post ! (i - 1)) @ str_split (?pre ! i)"
      using chunk_overlap_nth_words[of ov None ss m i] True i len by simp
    moreover have "length (overlap_words ov (?post ! (i - 1))) \<le> approx_words ov"
      by (simp add: overlap_words_length)
    ultimately show ?thesis using pre_i True by simp
  qed
qed

section \<open>Properties of the index operations\<close>

subsection \<open>Normalised rows\<close>

lemma length_renorm_L2: "length (renorm_L2 x) = length x"
  by (simp add: renorm_L2_def Let_def)

lemma normalize_L2_rows:
  "list_all (\<lambda>row. length row = d) (normalize_L2 x) = list_all (\<lambda>row. length row = d) x"
  by (simp add: normalize_L2_def list_all_iff length_renorm_L2)

lemma normalize_L2_Nil: "normalize_L2 [] = []"
  by (simp add: normalize_L2_def)

lemma normalize_L2_Cons: "normalize_L2 (v # x) = renorm_L2 v # normalize_L2 x"
  by (simp add: normalize_L2_def)

lemma norm_L2sqr_nonneg: "0 \<le> norm_L2sqr x"
  by (induction x) (simp_all add: norm_L2sqr_def)

lemma norm_L2sqr_scale: "norm_L2sqr (map (\<lambda>a. a * c) x) = c * c * norm_L2sqr x"
  by (induction x) (simp_all add: norm_L2sqr_def algebra_simps)

lemma norm_L2sqr_renorm: "norm_L2sqr (renorm_L2 x) \<le> 1"
proof (cases "norm_L2sqr x > 0")
  case True
  have "(1 / sqrt (norm_L2sqr x)) * (1 / sqrt (norm_L2sqr x)) * norm_L2sqr x = 1"
    using True by (simp add: field_simps)
  moreover have "renorm_L2 x = map (\<lambda>a. a * (1 / sqrt (norm_L2sqr x))) x"
    using True by (simp only: renorm_L2_def Let_def if_True)
  ultimately show ?thesis
    by (simp only: norm_L2sqr_scale)
next
  case False
  then show ?thesis by (simp add: renorm_L2_def Let_def)
qed

lemma product_bound: "2 * \<bar>a * b\<bar> \<le> a * a + b * (b::real)"
proof -
  have "0 \<le> (\<bar>a\<bar> - \<bar>b\<bar>) * (\<bar>a\<bar> - \<bar>b\<bar>)" by simp
  then show ?thesis by (simp add: algebra_simps abs_mult)
qed

lemma inner_product_bound: "2 * \<bar>inner_product x y\<bar> \<le> norm_L2sqr x + norm_L2sqr y"
proof (induction x arbitrary: y)
  case Nil
  then show ?case by (simp add: inner_product_def norm_L2sqr_nonneg)
next
  case (Cons a x)
  show ?case
  proof (cases y)
    case Nil
    have "inner_product (a # x) [] = 0" by (simp add: inner_product_def)
    moreover have "norm_L2sqr [] = 0" by (simp add: norm_L2sqr_def)
    ultimately show ?thesis
      using norm_L2sqr_nonneg[of "a # x"] Nil by simp
  next
    case (Cons b y')
    have "2 * \<bar>a * b + inner_product x y'\<bar> \<le> 2 * (\<bar>a * b\<bar> + \<bar>inner_product x y'\<bar>)"
      by (intro mult_left_mono abs_triangle_ineq) simp
    also have "\<dots> = 2 * \<bar>a * b\<bar> + 2 * \<bar>inner_product x y'\<bar>"
      by simp
    also have "\<dots> \<le> (a * a + b * b) + (norm_L2sqr x + norm_L2sqr y')"
      using product_bound[of a b] Cons.IH[of y'] by simp
    finally show ?thesis
      using Cons by (simp add: inner_product_def norm_L2sqr_def)
  qed
qed

lemma inner_product_unit:
  assumes "norm_L2sqr x \<le> 1" and "norm_L2sqr y \<le> 1"
  shows "- 1 \<le> inner_product x y \<and> inner_product x y \<le> 1"
proof -
  have "\<bar>inner_product x y\<bar> \<le> 1"
    using inner_product_bound[of x y] assms by linarith
  then show ?thesis by linarith
qed

subsection \<open>The nearest neighbours\<close>

lemma scored_member:
  assumes "(i, s) \<in> set (zip (map int [0 ..< length xb]) (map f xb))"
  shows "0 \<le> i \<and> nat i < length xb \<and> s = f (xb ! nat i)"
proof -
  from assms obtain j where j: "j < length xb" "i = int j" "s = f (xb ! j)"
    by (auto simp: set_zip)
  then show ?thesis by simp
qed

lemma scored_ids: "map fst (zip (map int [0 ..< length xb]) (map f xb)) = map int [0 ..< length xb]"
  by (simp add: map_fst_zip)

lemma distinct_sort_key_ids:
  assumes "distinct (map fst xs)"
  shows "distinct (map fst (sort_key f xs))"
proof -
  have "mset (map fst (sort_key f xs)) = mset (map fst xs)"
    by (metis mset_map mset_sort)
  then show ?thesis using assms by (metis mset_eq_imp_distinct_iff)
qed

lemma best_distinct:
  "distinct (map fst (take k (sort_key f (zip (map int [0 ..< length xb]) (map g xb)))))"
proof -
  have "distinct (map fst (zip (map int [0 ..< length xb]) (map g xb)))"
    by (simp only: scored_ids) (simp add: distinct_map inj_on_def)
  then have "distinct (map fst (sort_key f (zip (map int [0 ..< length xb]) (map g xb))))"
    by (rule distinct_sort_key_ids)
  then show ?thesis by (simp add: take_map[symmetric] distinct_take)
qed

lemma best_sorted:
  "sorted_wrt (\<lambda>a b. snd a \<ge> snd b) (take k (sort_key (\<lambda>p. - snd p) (xs :: (int \<times> real) list)))"
proof -
  have "sorted (map (\<lambda>p. - snd p) (sort_key (\<lambda>p. - snd p) xs))"
    by (rule sorted_sort_key)
  then have "sorted_wrt (\<lambda>a b. snd a \<ge> snd b) (sort_key (\<lambda>p. - snd p) xs)"
    by (simp add: sorted_map)
  then show ?thesis by (rule sorted_wrt_take)
qed

lemma knn_length: "length (knn xb q k) = k"
  by (simp add: knn_def Let_def)

lemma knn_in_range:
  "filter (in_range self) (knn xb q k)
   = filter (in_range self)
       (take k (sort_key (\<lambda>p. - snd p)
          (zip (map int [0 ..< length xb]) (map (inner_product q) xb))))"
  by (simp add: knn_def Let_def in_range_def)

lemma best_member:
  assumes "(i, s) \<in> set (take k (sort_key f (zip (map int [0 ..< length xb]) (map g xb))))"
  shows "0 \<le> i \<and> nat i < length xb \<and> s = g (xb ! nat i)"
proof -
  have "(i, s) \<in> set (sort_key f (zip (map int [0 ..< length xb]) (map g xb)))"
    using assms by (rule in_set_takeD)
  then have "(i, s) \<in> set (zip (map int [0 ..< length xb]) (map g xb))"
    by simp
  then show ?thesis by (rule scored_member)
qed

lemma distinct_ints_bounded:
  assumes "distinct (xs :: int list)" and "\<forall>x\<in>set xs. 0 \<le> x \<and> x < int n"
  shows "length xs \<le> n"
proof -
  have "set xs \<subseteq> {0..<int n}" using assms(2) by auto
  then have "card (set xs) \<le> card {0..<int n}" by (intro card_mono) simp_all
  then show ?thesis using assms(1) by (simp add: distinct_card)
qed

lemma kept_length:
  "length (filter (in_range self) (knn xb q k)) \<le> min k (length (passages self))"
proof -
  let ?best = "take k (sort_key (\<lambda>p. - snd p)
                 (zip (map int [0 ..< length xb]) (map (inner_product q) xb)))"
  have "distinct (map fst ?best)" by (rule best_distinct)
  then have "distinct (map fst (filter (in_range self) ?best))"
    by (simp add: distinct_map_filter)
  moreover have "\<forall>x\<in>set (map fst (filter (in_range self) ?best)).
                   0 \<le> x \<and> x < int (length (passages self))"
    by (auto simp: in_range_def)
  ultimately have "length (map fst (filter (in_range self) ?best)) \<le> length (passages self)"
    by (rule distinct_ints_bounded)
  then have a: "length (filter (in_range self) ?best) \<le> length (passages self)" by simp
  have "length (filter (in_range self) ?best) \<le> length ?best" by (rule length_filter_le)
  also have "\<dots> \<le> k" by simp
  finally have b: "length (filter (in_range self) ?best) \<le> k" .
  show ?thesis using a b by (simp add: knn_in_range)
qed

lemma kept_sorted:
  "sorted_wrt (\<lambda>a b. hit_score a \<ge> hit_score b)
     (map (make_hit self) (filter (in_range self) (knn xb q k)))"
proof -
  have "sorted_wrt (\<lambda>a b. snd a \<ge> snd b) (filter (in_range self) (knn xb q k))"
    by (simp only: knn_in_range) (rule sorted_wrt_filter, rule best_sorted)
  moreover have "\<And>p. hit_score (make_hit self p) = snd p"
    by (simp add: make_hit_def split: prod.splits)
  ultimately show ?thesis by (simp add: sorted_wrt_map)
qed

lemma kept_pairs:
  "map (\<lambda>h. (hit_id h, hit_score h)) (map (make_hit self) (filter (in_range self) hits))
   = filter (in_range self) hits"
  by (induction hits) (auto simp: make_hit_def)

lemma kept_member:
  assumes "h \<in> set (map (make_hit self) (filter (in_range self) (knn xb q k)))"
  shows "0 \<le> hit_id h \<and> hit_id h < int (length (passages self))
         \<and> hit_passage h = passages self ! nat (hit_id h)
         \<and> nat (hit_id h) < length xb
         \<and> hit_score h = inner_product q (xb ! nat (hit_id h))"
proof -
  let ?best = "take k (sort_key (\<lambda>p. - snd p)
                 (zip (map int [0 ..< length xb]) (map (inner_product q) xb)))"
  from assms obtain i s where p: "(i, s) \<in> set ?best" "in_range self (i, s)"
      "h = make_hit self (i, s)"
    by (auto simp only: knn_in_range set_map set_filter)
  have "0 \<le> i \<and> nat i < length xb \<and> s = inner_product q (xb ! nat i)"
    using p(1) by (rule best_member)
  then show ?thesis using p(2,3) by (simp add: make_hit_def in_range_def)
qed

lemma kept_scores:
  "list_all (\<lambda>h. nat (hit_id h) < length vs
              \<and> hit_score h = inner_product q (renorm_L2 (vs ! nat (hit_id h))))
     (map (make_hit self) (filter (in_range self) (knn (normalize_L2 vs) q k)))"
proof -
  have "nat (hit_id h) < length vs
        \<and> hit_score h = inner_product q (renorm_L2 (vs ! nat (hit_id h)))"
    if h: "h \<in> set (map (make_hit self) (filter (in_range self) (knn (normalize_L2 vs) q k)))"
    for h
    using kept_member[OF h] by (simp add: normalize_L2_def)
  then show ?thesis by (simp only: list_all_iff) blast
qed

lemma kept_ok:
  assumes "norm_L2sqr q \<le> 1" and "list_all (\<lambda>row. norm_L2sqr row \<le> 1) xb"
  shows "list_all (hit_ok self) (map (make_hit self) (filter (in_range self) (knn xb q k)))"
proof -
  have "hit_ok self h"
    if h: "h \<in> set (map (make_hit self) (filter (in_range self) (knn xb q k)))" for h
  proof -
    note m = kept_member[OF h]
    have "norm_L2sqr (xb ! nat (hit_id h)) \<le> 1"
      using assms(2) m by (simp add: list_all_length)
    then have "- 1 \<le> hit_score h \<and> hit_score h \<le> 1"
      using inner_product_unit[OF assms(1)] m by simp
    then show ?thesis using m by (simp add: hit_ok_def)
  qed
  then show ?thesis by (simp only: list_all_iff) blast
qed

subsection \<open>\<open>build\<close>, \<open>save\<close>, \<open>load\<close> and \<open>query\<close> by cases\<close>

lemma build_cases:
  "build sv self ps =
     (if ps = [] then (Inl ValueError, self)
      else case encode sv (model_name self) ps of
             Inl e \<Rightarrow> (Inl (ExternalError e), self\<lparr>passages := ps\<rparr>)
           | Inr vs \<Rightarrow>
               (case dimension sv (model_name self) of
                  None \<Rightarrow> (Inl (ExternalError ''TypeError''), self\<lparr>passages := ps\<rparr>)
                | Some d \<Rightarrow>
                    if list_all (\<lambda>row. length row = d) vs
                    then (Inr (), self\<lparr>passages := ps, index := Some (IndexFlatIP d (normalize_L2 vs))\<rparr>)
                    else (Inl (ExternalError ''AssertionError''),
                          self\<lparr>passages := ps, index := Some (IndexFlatIP d [])\<rparr>)))"
  by (auto simp add: build_def Let_def index_flat_ip_def index_add_def normalize_L2_rows
      split: sum.splits option.splits)

lemma query_cases:
  "query sv self q top_k =
     (case index self of
        None \<Rightarrow> Inl RuntimeError
      | Some ix \<Rightarrow>
          (case ix of IndexFlatIP d xb \<Rightarrow>
             (case encode sv (model_name self) [q] of
                Inl e \<Rightarrow> Inl (ExternalError e)
              | Inr q_vec \<Rightarrow>
                  if \<not> list_all (\<lambda>row. length row = d) q_vec \<or> top_k \<le> 0
                  then Inl (ExternalError ''AssertionError'')
                  else (case q_vec of
                          [] \<Rightarrow> Inl IndexError
                        | v # _ \<Rightarrow>
                            Inr (map (make_hit self)
                                  (filter (in_range self) (knn xb (renorm_L2 v) (nat top_k))))))))"
  by (auto simp add: query_def index_search_def normalize_L2_rows normalize_L2_Nil
      normalize_L2_Cons length_renorm_L2 zip_map_fst_snd
      split: option.splits sum.splits faiss_index.splits list.splits)

lemma build_ValueError_iff: "fst (build sv self ps) = Inl ValueError \<longleftrightarrow> ps = []"
  by (simp add: build_cases split: sum.splits option.splits)

lemma build_empty_unchanged: "build sv self [] = (Inl ValueError, self)"
  by (simp add: build_def)

lemma build_external:
  "ps \<noteq> [] \<Longrightarrow> fst (build sv self ps) = Inr () \<or> (\<exists>e. fst (build sv self ps) = Inl (ExternalError e))"
  by (simp add: build_cases split: sum.splits option.splits)

lemma build_ok_iff:
  "fst (build sv self ps) = Inr () \<longleftrightarrow>
     ps \<noteq> [] \<and> (\<exists>vs d. encode sv (model_name self) ps = Inr vs
                    \<and> dimension sv (model_name self) = Some d
                    \<and> list_all (\<lambda>row. length row = d) vs)"
  by (auto simp: build_cases split: sum.splits option.splits)

lemma build_ok:
  assumes "ps \<noteq> []" "encode sv (model_name self) ps = Inr vs"
      and "dimension sv (model_name self) = Some d" "list_all (\<lambda>row. length row = d) vs"
  shows "build sv self ps
         = (Inr (), self\<lparr>passages := ps, index := Some (IndexFlatIP d (normalize_L2 vs))\<rparr>)"
  using assms by (simp add: build_cases)

lemma build_ok_result:
  assumes "build sv self ps = (Inr (), built)"
  shows "\<exists>vs d. encode sv (model_name self) ps = Inr vs
           \<and> dimension sv (model_name self) = Some d
           \<and> index built = Some (IndexFlatIP d (normalize_L2 vs))
           \<and> passages built = ps"
  using assms by (auto simp: build_cases split: if_splits sum.splits option.splits)

lemma build_early_failure:
  "(\<exists>e. encode sv (model_name self) ps = Inl e) \<or> dimension sv (model_name self) = None
   \<Longrightarrow> index (snd (build sv self ps)) = index self"
  by (auto simp: build_cases split: sum.splits option.splits)

lemma build_add_failure:
  assumes "ps \<noteq> []" "encode sv (model_name self) ps = Inr vs"
      and "dimension sv (model_name self) = Some d" "\<not> list_all (\<lambda>row. length row = d) vs"
  shows "build sv self ps
         = (Inl (ExternalError ''AssertionError''),
            self\<lparr>passages := ps, index := Some (IndexFlatIP d [])\<rparr>)"
  using assms by (simp add: build_cases)

lemma build_encoder_fails:
  "ps \<noteq> [] \<Longrightarrow> encode sv (model_name self) ps = Inl e \<Longrightarrow>
   build sv self ps = (Inl (ExternalError e), self\<lparr>passages := ps\<rparr>)"
  by (simp add: build_cases)

lemma query_RuntimeError_iff: "query sv self q k = Inl RuntimeError \<longleftrightarrow> index self = None"
  by (simp add: query_cases split: option.splits sum.splits faiss_index.splits list.splits)

lemma save_RuntimeError_iff: "fst (save fs self ip pp) = Inl RuntimeError \<longleftrightarrow> index self = None"
  by (simp add: save_def Let_def split: option.splits)

lemma init_index: "index (init mn) = None"
  by (simp add: init_def)

lemma build_ok_index: "fst (build sv self ps) = Inr () \<Longrightarrow> index (snd (build sv self ps)) \<noteq> None"
  by (auto simp: build_cases split: if_splits sum.splits option.splits)

lemma load_ok_index: "fst (load fs self ip pp) = Inr () \<Longrightarrow> index (snd (load fs self ip pp)) \<noteq> None"
  by (simp add: load_def Let_def split: option.splits sum.splits)

lemma build_keeps_index: "index self \<noteq> None \<Longrightarrow> index (snd (build sv self ps)) \<noteq> None"
  by (auto simp: build_cases split: if_splits sum.splits option.splits)

lemma load_keeps_index: "index self \<noteq> None \<Longrightarrow> index (snd (load fs self ip pp)) \<noteq> None"
  by (simp add: load_def Let_def split: option.splits sum.splits)

lemma load_FileNotFoundError_iff:
  "fst (load fs self ip pp) = Inl FileNotFoundError \<longleftrightarrow> (fs ip = None \<or> fs pp = None)"
  by (simp add: load_def Let_def split: option.splits sum.splits)

lemma load_missing_unchanged:
  "fs ip = None \<or> fs pp = None \<Longrightarrow> load fs self ip pp = (Inl FileNotFoundError, self)"
  by (auto simp: load_def split: option.splits)

lemma load_wellformed:
  "fs ip = Some (IndexFile i) \<Longrightarrow> fs pp = Some (PassagesFile ps) \<Longrightarrow>
   load fs self ip pp = (Inr (), self\<lparr>index := Some i, passages := ps\<rparr>)"
  by (simp add: load_def read_index_def json_load_def)

lemma query_depends:
  "index a = index b \<Longrightarrow> passages a = passages b \<Longrightarrow> model_name a = model_name b \<Longrightarrow>
   query sv a q k = query sv b q k"
proof -
  assume a: "index a = index b" "passages a = passages b" "model_name a = model_name b"
  have "make_hit a = make_hit b" "in_range a = in_range b"
    using a by (auto simp: make_hit_def in_range_def fun_eq_iff)
  then show ?thesis
    using a by (simp add: query_def cong: option.case_cong sum.case_cong prod.case_cong
        list.case_cong)
qed

lemma sqrt_4: "sqrt 4 = 2"
  by (rule real_sqrt_unique) simp_all

lemma build_three_passages:
  "build sample_services (init ''all-MiniLM-L6-v2'') [''p0'', ''p1'', ''p2'']
   = (Inr (), three_passages)"
  by (simp add: build_cases sample_services_def sample_vector_def init_def three_passages_def
      normalize_L2_def renorm_L2_def norm_L2sqr_def sqrt_4)

lemma no_passages_no_hits: "passages self = [] \<Longrightarrow> filter (in_range self) hits = []"
  by (induction hits) (auto simp: in_range_def)

lemma query_three_passages:
  "query sample_services three_passages ''balance?'' 10
   = Inr [\<lparr> hit_id = 1, hit_score = 1, hit_passage = ''p1'' \<rparr>,
          \<lparr> hit_id = 0, hit_score = 0, hit_passage = ''p0'' \<rparr>,
          \<lparr> hit_id = 2, hit_score = - 1, hit_passage = ''p2'' \<rparr>]"
  by (simp add: query_cases three_passages_def sample_services_def sample_vector_def
      renorm_L2_def norm_L2sqr_def knn_def inner_product_def in_range_def make_hit_def
      FLT_MAX_def Let_def)

section \<open>Properties of the deduplication loop\<close>

lemma dedupe_fold:
  "foldl dedupe_step (seen, acc) xs
   = (seen \<union> set xs, acc @ first_occurrences (filter (\<lambda>x. x \<notin> seen) xs))"
proof (induction xs arbitrary: seen acc)
  case Nil
  then show ?case by simp
next
  case (Cons x xs)
  show ?case
  proof (cases "x \<in> seen")
    case True
    then show ?thesis using Cons.IH[of seen acc] by (simp add: insert_absorb)
  next
    case False
    have "filter (\<lambda>y. y \<noteq> x) (filter (\<lambda>y. y \<notin> seen) xs) = filter (\<lambda>y. y \<notin> insert x seen) xs"
      by (induction xs) auto
    then show ?thesis using False Cons.IH[of "insert x seen" "acc @ [x]"] by simp
  qed
qed

lemma dedupe_first_occurrences: "dedupe xs = first_occurrences xs"
  by (simp add: dedupe_def dedupe_fold)

lemma set_first_occurrences: "set (first_occurrences xs) = set xs"
  by (induction xs rule: first_occurrences.induct) auto

lemma distinct_first_occurrences: "distinct (first_occurrences xs)"
  by (induction xs rule: first_occurrences.induct) (auto simp: set_first_occurrences)

lemma first_occurrences_distinct: "distinct xs \<Longrightarrow> first_occurrences xs = xs"
proof (induction xs)
  case Nil then show ?case by simp
next
  case (Cons x xs)
  then have "filter (\<lambda>y. y \<noteq> x) xs = xs" by (auto simp: filter_id_conv)
  with Cons show ?case by simp
qed

section \<open>Properties of the ingestion loop\<close>

lemma char_of_49: "char_of (49::nat) = CHR ''1''"
  by code_simp

lemma str_lower_PDF: "str_lower ''.PDF'' = ''.pdf''"
  by code_simp

lemma file_step_log:
  "outcome (file_step env u m ov (cm, l1) p) = outcome (file_step env u m ov (cm, l2) p)"
  by (simp add: file_step_def outcome_def Let_def split: sum.splits prod.splits)

lemma file_step_cases:
  "(\<exists>e. file_step env u m ov (cm, l) p = Inl e \<and> (\<forall>l'. file_step env u m ov (cm, l') p = Inl e))
   \<or> (\<exists>cm' k. \<forall>l'. file_step env u m ov (cm, l') p = Inr (cm', l' @ k))"
  by (auto simp: file_step_def Let_def split: sum.splits prod.splits)

lemma ingest_from_log:
  "outcome (ingest_from env u m ov (cm, l1) ps) = outcome (ingest_from env u m ov (cm, l2) ps)"
proof (induction ps arbitrary: cm l1 l2)
  case Nil
  then show ?case by (simp add: ingest_from_def outcome_def)
next
  case (Cons p ps)
  from file_step_cases[of env u m ov cm l1 p] show ?case
  proof
    assume "\<exists>e. file_step env u m ov (cm, l1) p = Inl e \<and> (\<forall>l'. file_step env u m ov (cm, l') p = Inl e)"
    then show ?thesis by (auto simp: ingest_from_def outcome_def)
  next
    assume "\<exists>cm' k. \<forall>l'. file_step env u m ov (cm, l') p = Inr (cm', l' @ k)"
    then obtain cm' k where s: "\<forall>l'. file_step env u m ov (cm, l') p = Inr (cm', l' @ k)" by blast
    have "outcome (ingest_from env u m ov (cm', l1 @ k) ps) = outcome (ingest_from env u m ov (cm', l2 @ k) ps)"
      by (rule Cons.IH)
    then show ?thesis using s by (simp add: ingest_from_def)
  qed
qed

lemma file_step_missing:
  "\<not> path_exists env (abspath env p) \<Longrightarrow>
   file_step env u m ov (cm, l) p = Inr (cm, l @ [''[WARN] '' @ abspath env p @ '' not found, skipping.''])"
  by (simp add: file_step_def Let_def)

lemma ingest_from_skip:
  assumes "\<not> path_exists env (abspath env p)"
  shows "outcome (ingest_from env u m ov st (ps1 @ p # ps2)) = outcome (ingest_from env u m ov st (ps1 @ ps2))"
proof (induction ps1 arbitrary: st)
  case Nil
  obtain cm l where st: "st = (cm, l)" by (cases st)
  have "ingest_from env u m ov st (p # ps2)
        = ingest_from env u m ov (cm, l @ [''[WARN] '' @ abspath env p @ '' not found, skipping.'']) ps2"
    using file_step_missing[OF assms] by (simp add: ingest_from_def st)
  then show ?case using ingest_from_log[of env u m ov cm _ ps2 l] by (simp add: st)
next
  case (Cons x xs)
  show ?case
  proof (cases "file_step env u m ov st x")
    case (Inl e)
    then show ?thesis by (simp add: ingest_from_def)
  next
    case (Inr st')
    then show ?thesis using Cons.IH[of st'] by (simp add: ingest_from_def)
  qed
qed

lemma file_step_image:
  assumes "path_exists env (abspath env p)"
      and "str_lower (splitext_ext (basename (abspath env p))) \<noteq> ''.pdf''"
  shows "file_step env u m ov (cm, printed) p =
           (case image_open env (abspath env p) of
              Inl e \<Rightarrow> Inl (ExternalError e)
            | Inr img \<Rightarrow>
                (case image_to_string env img of
                   Inl e \<Rightarrow> Inl (ExternalError e)
                 | Inr txt \<Rightarrow>
                     Inr (cm @ chunk_page_text (tiktoken env) txt (basename (abspath env p)) 1 m ov,
                          printed)))"
  using assms by (simp add: file_step_def image_to_text_def Let_def split: sum.splits)

lemma file_step_pdf:
  assumes "path_exists env (abspath env p)"
      and "str_lower (splitext_ext (basename (abspath env p))) = ''.pdf''"
  shows "file_step env u m ov (cm, printed) p =
           (case pdf_pages_text env (abspath env p) u of
              Inl e \<Rightarrow> Inl e
            | Inr pages \<Rightarrow>
                (case foldl_err (page_step env (abspath env p) (basename (abspath env p)) m ov)
                        (cm, None) pages of
                   Inl e \<Rightarrow> Inl e
                 | Inr (cm', images) \<Rightarrow> Inr (cm', printed)))"
  using assms by (simp add: file_step_def Let_def)

lemma page_steps_selectable:
  assumes "list_all (\<lambda>pg. str_strip (snd pg) \<noteq> []) pages"
  shows "foldl_err (page_step env p name m ov) (cm, images) pages
         = Inr (cm @ concat (map (\<lambda>pg. chunk_page_text (tiktoken env) (snd pg) name (fst pg) m ov)
                               pages),
                images)"
  using assms
proof (induction pages arbitrary: cm)
  case Nil
  then show ?case by simp
next
  case (Cons pg pages)
  obtain page_no t where pg: "pg = (page_no, t)" by (cases pg)
  have "str_strip t \<noteq> []" using Cons.prems pg by simp
  moreover have "t \<noteq> []" using calculation by (auto simp: str_strip_nonempty_iff)
  ultimately have "page_step env p name m ov (cm, images) pg
        = Inr (cm @ chunk_page_text (tiktoken env) t name page_no m ov, images)"
    by (simp add: page_step_def pg)
  moreover have "list_all (\<lambda>pg. str_strip (snd pg) \<noteq> []) pages" using Cons.prems by simp
  ultimately show ?case using Cons.IH by (simp add: pg)
qed

lemma file_step_pdf_selectable:
  assumes "path_exists env (abspath env p)"
      and "str_lower (splitext_ext (basename (abspath env p))) = ''.pdf''"
      and "pdf_pages_text env (abspath env p) u = Inr pages"
      and "list_all (\<lambda>pg. str_strip (snd pg) \<noteq> []) pages"
  shows "file_step env u m ov (cm, printed) p
         = Inr (cm @ concat (map (\<lambda>pg. chunk_page_text (tiktoken env) (snd pg)
                                         (basename (abspath env p)) (fst pg) m ov) pages),
                printed)"
  by (simp add: file_step_pdf[OF assms(1,2)] assms(3) page_steps_selectable[OF assms(4)])

lemma ingest_from_append:
  "ingest_from env u m ov st (ps1 @ ps2)
   = (case ingest_from env u m ov st ps1 of
        Inl e \<Rightarrow> Inl e
      | Inr st' \<Rightarrow> ingest_from env u m ov st' ps2)"
  by (induction ps1 arbitrary: st) (simp_all add: ingest_from_def split: sum.splits)

lemma ingest_from_abort:
  assumes "ingest_from env u m ov st ps1 = Inr st'" and "file_step env u m ov st' p = Inl e"
  shows "ingest_from env u m ov st (ps1 @ p # ps2) = Inl e"
  using assms by (simp add: ingest_from_append) (simp add: ingest_from_def)

lemma page_step_prefix:
  assumes "page_step env p name m ov (cm, images) pg = Inr (cm', images')"
  shows "prefix cm cm'"
  using assms by (auto simp: page_step_def split: prod.splits if_splits sum.splits option.splits)

lemma page_steps_prefix:
  assumes "foldl_err (page_step env p name m ov) (cm, images) pages = Inr (cm', images')"
  shows "prefix cm cm'"
  using assms
proof (induction pages arbitrary: cm images)
  case Nil
  then show ?case by simp
next
  case (Cons pg pages)
  from Cons.prems obtain cm1 images1 where
    s: "page_step env p name m ov (cm, images) pg = Inr (cm1, images1)"
    and r: "foldl_err (page_step env p name m ov) (cm1, images1) pages = Inr (cm', images')"
    by (auto split: sum.splits)
  have "prefix cm cm1" using s by (rule page_step_prefix)
  moreover have "prefix cm1 cm'" using r by (rule Cons.IH)
  ultimately show ?case by (rule prefix_order.trans)
qed

lemma file_step_existing:
  assumes "path_exists env (abspath env p)"
      and "file_step env u m ov (cm, printed) p = Inr (cm', printed')"
  shows "printed' = printed \<and> prefix cm cm'"
proof (cases "str_lower (splitext_ext (basename (abspath env p))) = ''.pdf''")
  case True
  from assms(2) obtain pages images where
    "foldl_err (page_step env (abspath env p) (basename (abspath env p)) m ov) (cm, None) pages
     = Inr (cm', images)" and "printed' = printed"
    by (auto simp: file_step_pdf[OF assms(1) True] split: sum.splits prod.splits)
  then show ?thesis using page_steps_prefix by blast
next
  case False
  from assms(2) show ?thesis
    by (auto simp: file_step_image[OF assms(1) False] split: sum.splits)
qed

section \<open>C10: texts without a sentence boundary\<close>

text \<open>
  Claim C10.  A page text with at least one non-whitespace character and no \<open>.\<close>, \<open>?\<close>
  or \<open>!\<close> directly followed by whitespace is split into exactly one sentence, the
  trimmed text, and \<open>chunk_page_text\<close> returns at least one passage for it, whatever
  the token counter and the limits.  A text of whitespace only (the empty text
  included) gives no sentence and no passage.
\<close>

theorem C10_single_sentence_or_none:
  "((\<exists>c\<in>set t. \<not> isspace c) \<and> \<not> has_boundary t \<longrightarrow>
      split_into_sentences t = [str_strip t] \<and>
      length (chunk_page_text tk t src p M ov) \<ge> 1)
   \<and> ((\<forall>c\<in>set t. isspace c) \<longrightarrow>
      split_into_sentences t = [] \<and> chunk_page_text tk t src p M ov = [])"
proof (intro conjI impI)
  assume h: "(\<exists>c\<in>set t. \<not> isspace c) \<and> \<not> has_boundary t"
  then show s: "split_into_sentences t = [str_strip t]"
    by (simp add: split_into_sentences_single)
  have "str_strip t \<noteq> []" using h by (simp add: str_strip_nonempty_iff)
  then have "\<exists>c\<in>set (str_strip t). \<not> isspace c"
    using str_strip_hd by (metis hd_in_set)
  then have "str_split (str_strip t) \<noteq> []" by (simp add: str_split_empty_iff)
  then have "pack_sentences tk [str_strip t] M \<noteq> []" by (rule pack_single_nonempty)
  then show "length (chunk_page_text tk t src p M ov) \<ge> 1"
    by (simp add: chunk_page_text_length chunk_sentences_length s Suc_le_eq)
next
  assume h: "\<forall>c\<in>set t. isspace c"
  then show s: "split_into_sentences t = []" by (rule split_into_sentences_blank)
  show "chunk_page_text tk t src p M ov = []"
    by (simp add: chunk_page_text_def s chunk_sentences_to_chunks_def)
qed

theorem C10_single_sentence_or_none_witness:
  "((\<exists>c\<in>set ''  total due 500 ''. \<not> isspace c) \<and> \<not> has_boundary ''  total due 500 '')
   \<and> split_into_sentences ''  total due 500 '' = [''total due 500'']
   \<and> length (chunk_page_text None ''  total due 500 '' ''doc.pdf'' 1 2 150) \<ge> 1
   \<and> list_all isspace ''   ''
   \<and> split_into_sentences ''   '' = []
   \<and> chunk_page_text None ''   '' ''doc.pdf'' 1 2 150 = []"
proof -
  have h1: "(\<exists>c\<in>set ''  total due 500 ''. \<not> isspace c) \<and> \<not> has_boundary ''  total due 500 ''"
    by (simp add: isspace_def is_terminator_def)
  have h2: "\<forall>c\<in>set ''   ''. isspace c"
    by (simp add: isspace_def)
  have s: "str_strip ''  total due 500 '' = ''total due 500''"
    by (simp add: str_strip_def isspace_def)
  show ?thesis
    using h1 h2 s list_all_iff [of isspace "''   ''"]
      C10_single_sentence_or_none [of "''  total due 500 ''" None "''doc.pdf''" 1 2 150]
      C10_single_sentence_or_none [of "''   ''" None "''doc.pdf''" 1 2 150]
    by simp
qed

section \<open>C1: order of the sentences in the chunks\<close>

text \<open>
  Claim C1 says that the chunks of a page, overlap removed, hold the sentences in their
  original order, and that the pieces of a word-split sentence never overtake a
  sentence buffered before them.  The code appends every piece but the last directly
  to \<open>chunks\<close> while the buffer \<open>cur\<close> is still pending.  For the page text
  \<open>A b. c d e f g h.\<close> with \<open>max_tokens = 3\<close>, no overlap and the word-count fallback,
  the sentences are \<open>A b.\<close> and \<open>c d e f g h.\<close>, and the first chunk is \<open>c d e\<close>, a piece
  of the second sentence, before \<open>A b.\<close>.
\<close>

theorem C1_pieces_overtake_buffer:
  "split_into_sentences ''A b. c d e f g h.'' = [''A b.'', ''c d e f g h.'']
   \<and> tokens_length None ''A b.'' = 2
   \<and> tokens_length None ''c d e f g h.'' = 7
   \<and> map chunk_text (chunk_page_text None ''A b. c d e f g h.'' ''doc.pdf'' 1 3 0)
       = [''c d e'', ''A b.'', ''f g h.'']"
  by (simp add: chunk_eval_defs)

section \<open>C2: size of the chunks\<close>

text \<open>
  Claim C2 as stated: every chunk has a token count of at most \<open>max_tokens\<close> unless a
  single sentence exceeds it.  The packing loop adds up the token counts of the
  sentences one by one, and the count of the joined text can be larger.  With the
  word-count fallback the four one-word sentences of \<open>A. B. C. D.\<close> count 1 token each,
  so with \<open>max_tokens = 4\<close> and no overlap they form one chunk, whose own count is
  \<open>13 * 4 div 10 = 5\<close>.
\<close>

theorem C2_chunk_exceeds_max_tokens:
  "split_into_sentences ''A. B. C. D.'' = [''A.'', ''B.'', ''C.'', ''D.'']
   \<and> tokens_length None ''A.'' = 1 \<and> tokens_length None ''B.'' = 1
   \<and> tokens_length None ''C.'' = 1 \<and> tokens_length None ''D.'' = 1
   \<and> map chunk_text (chunk_page_text None ''A. B. C. D.'' ''doc.pdf'' 1 4 0) = [''A. B. C. D.'']
   \<and> tokens_length None ''A. B. C. D.'' = 5
   \<and> \<not> tokens_length None ''A. B. C. D.'' \<le> 4"
  by (simp add: chunk_eval_defs)

text \<open>
  Claim C2 as amended, for the word-count fallback and \<open>max_tokens \<ge> 1\<close>: every chunk
  has at most \<open>max_tokens\<close> words, plus at most \<open>max 1 (10 * overlap_tokens div 13)\<close>
  overlap words when \<open>overlap_tokens > 0\<close>; its token count is therefore at most
  \<open>max 1 (13 * k div 10)\<close> for that number \<open>k\<close> of words.  The pieces of an over-long
  sentence are chunks like the others and obey the same bound.
\<close>

theorem C2_word_bound:
  assumes "1 \<le> m" and "c \<in> set (chunk_sentences_to_chunks None ss m ov)"
  shows "int (length (str_split c)) \<le> m + (if 0 < ov then int (approx_words ov) else 0)
       \<and> tokens_length None c
           \<le> max 1 ((m + (if 0 < ov then int (approx_words ov) else 0)) * 13 div 10)"
proof
  show w: "int (length (str_split c)) \<le> m + (if 0 < ov then int (approx_words ov) else 0)"
    using assms by (rule chunk_words_bound)
  show "tokens_length None c
           \<le> max 1 ((m + (if 0 < ov then int (approx_words ov) else 0)) * 13 div 10)"
    using w by (rule tokens_length_mono_words)
qed

theorem C2_word_bound_witness:
  "(1::int) \<le> 4
   \<and> ''A. B. C. D.'' \<in> set (chunk_sentences_to_chunks None [''A.'', ''B.'', ''C.'', ''D.''] 4 0)
   \<and> int (length (str_split ''A. B. C. D.'')) \<le> 4
   \<and> tokens_length None ''A. B. C. D.'' \<le> 5"
proof -
  have h1: "(1::int) \<le> 4" by simp
  have h2: "''A. B. C. D.'' \<in> set (chunk_sentences_to_chunks None [''A.'', ''B.'', ''C.'', ''D.''] 4 0)"
    by (simp add: chunk_eval_defs)
  show ?thesis using h1 h2 C2_word_bound [OF h1 h2] by simp
qed

section \<open>C3: what the overlap is taken from\<close>

text \<open>
  Claim C3 as stated: chunk \<open>i > 0\<close> begins with a word suffix of the content chunk
  \<open>i - 1\<close> had before overlap.  It fails for three two-word sentences with
  \<open>max_tokens = 2\<close> and \<open>overlap_tokens = 4\<close> (three overlap words): chunk 1 had the content
  \<open>c d.\<close>, so chunk 2 would be \<open>c d. e f.\<close>, while the code returns \<open>b. c d. e f.\<close>, whose
  first word comes from chunk 0.
\<close>

theorem C3_overlap_reaches_past_predecessor:
  "chunk_sentences_to_chunks None [''a b.'', ''c d.'', ''e f.''] 2 0 = [''a b.'', ''c d.'', ''e f.'']
   \<and> approx_words 4 = 3
   \<and> chunk_sentences_to_chunks None [''a b.'', ''c d.'', ''e f.''] 2 4
       = [''a b.'', ''a b. c d.'', ''b. c d. e f.'']
   \<and> str_split ''b. c d. e f.'' \<noteq> str_split ''c d.'' @ str_split ''e f.''"
  by (simp add: chunk_eval_defs)

text \<open>
  Claim C3 as amended: with \<open>overlap_tokens > 0\<close> and at least two chunks, the chunk
  count is unchanged, chunk 0 is unchanged, and the words of every chunk \<open>i > 0\<close> are
  the overlap words followed by the words of its own content, where the overlap words
  are the last \<open>min n k\<close> words of the final chunk \<open>i - 1\<close> (its own overlap included),
  \<open>n = max 1 (10 * overlap_tokens div 13)\<close> and \<open>k\<close> the number of words of that chunk.
\<close>

theorem C3_overlap_from_overlapped_predecessor:
  assumes "ov > 0" and "length (pack_sentences tk ss M) > 1"
  shows "length (chunk_sentences_to_chunks tk ss M ov) = length (pack_sentences tk ss M)
    \<and> chunk_sentences_to_chunks tk ss M ov ! 0 = pack_sentences tk ss M ! 0
    \<and> (\<forall>i. 0 < i \<and> i < length (pack_sentences tk ss M) \<longrightarrow>
         str_split (chunk_sentences_to_chunks tk ss M ov ! i)
           = overlap_words ov (chunk_sentences_to_chunks tk ss M ov ! (i - 1))
             @ str_split (pack_sentences tk ss M ! i)
         \<and> suffix (overlap_words ov (chunk_sentences_to_chunks tk ss M ov ! (i - 1)))
                  (str_split (chunk_sentences_to_chunks tk ss M ov ! (i - 1)))
         \<and> length (overlap_words ov (chunk_sentences_to_chunks tk ss M ov ! (i - 1)))
             = min (approx_words ov)
                   (length (str_split (chunk_sentences_to_chunks tk ss M ov ! (i - 1)))))
    \<and> 1 \<le> approx_words ov"
proof (intro conjI allI impI)
  show "length (chunk_sentences_to_chunks tk ss M ov) = length (pack_sentences tk ss M)"
    using assms by (auto simp: chunk_sentences_length pack_sentences_def)
next
  show "chunk_sentences_to_chunks tk ss M ov ! 0 = pack_sentences tk ss M ! 0"
    using assms by (rule chunk_overlap_first)
next
  fix i assume i: "0 < i \<and> i < length (pack_sentences tk ss M)"
  then show "str_split (chunk_sentences_to_chunks tk ss M ov ! i)
           = overlap_words ov (chunk_sentences_to_chunks tk ss M ov ! (i - 1))
             @ str_split (pack_sentences tk ss M ! i)"
    using chunk_overlap_nth_words[OF assms, of i] by simp
next
  fix i
  show "suffix (overlap_words ov (chunk_sentences_to_chunks tk ss M ov ! (i - 1)))
               (str_split (chunk_sentences_to_chunks tk ss M ov ! (i - 1)))"
    by (rule overlap_words_suffix)
next
  fix i
  show "length (overlap_words ov (chunk_sentences_to_chunks tk ss M ov ! (i - 1)))
             = min (approx_words ov)
                   (length (str_split (chunk_sentences_to_chunks tk ss M ov ! (i - 1))))"
    by (rule overlap_words_length)
next
  show "1 \<le> approx_words ov" by (rule approx_words_pos)
qed

theorem C3_overlap_from_overlapped_predecessor_witness:
  "(0::int) < 4
   \<and> length (pack_sentences None [''a b.'', ''c d.'', ''e f.''] 2) > 1
   \<and> chunk_sentences_to_chunks None [''a b.'', ''c d.'', ''e f.''] 2 4 ! 0 = ''a b.''
   \<and> str_split (chunk_sentences_to_chunks None [''a b.'', ''c d.'', ''e f.''] 2 4 ! 2)
       = overlap_words 4 (chunk_sentences_to_chunks None [''a b.'', ''c d.'', ''e f.''] 2 4 ! 1)
         @ str_split ''e f.''
   \<and> overlap_words 4 ''a b. c d.'' = [''b.'', ''c'', ''d.'']"
proof -
  have h1: "(0::int) < 4" by simp
  have p: "pack_sentences None [''a b.'', ''c d.'', ''e f.''] 2 = [''a b.'', ''c d.'', ''e f.'']"
    by (simp add: chunk_eval_defs)
  have h2: "length (pack_sentences None [''a b.'', ''c d.'', ''e f.''] 2) > 1"
    by (simp add: p)
  note t = C3_overlap_from_overlapped_predecessor [OF h1 h2]
  have t0: "chunk_sentences_to_chunks None [''a b.'', ''c d.'', ''e f.''] 2 4 ! 0 = ''a b.''"
    using t by (simp add: p)
  have "0 < (2::nat) \<and> 2 < length (pack_sentences None [''a b.'', ''c d.'', ''e f.''] 2)"
    by (simp add: p)
  with t have t2: "str_split (chunk_sentences_to_chunks None [''a b.'', ''c d.'', ''e f.''] 2 4 ! 2)
       = overlap_words 4 (chunk_sentences_to_chunks None [''a b.'', ''c d.'', ''e f.''] 2 4 ! (2 - 1))
         @ str_split (pack_sentences None [''a b.'', ''c d.'', ''e f.''] 2 ! 2)"
    by blast
  have w: "overlap_words 4 ''a b. c d.'' = [''b.'', ''c'', ''d.'']"
    by (simp add: chunk_eval_defs)
  show ?thesis using h1 h2 t0 t2 w by (simp add: p)
qed

section \<open>C4: the errors of the index operations\<close>

text \<open>
  Claim C4 as stated: \<open>build\<close> raises if and only if the passage list is empty,
  \<open>query\<close> and \<open>save\<close> raise exactly before any successful \<open>build\<close> or \<open>load\<close>, and
  \<open>load\<close> raises when a path is missing and loads both files otherwise.  Three cases
  against it: \<open>build\<close> on a non-empty list raises when the encoder does; \<open>load\<close> on
  two existing paths raises when the passages file is not a passage list; and after
  that failed \<open>load\<close>, the only operation on a new index, \<open>query\<close> does not raise
  \<open>RuntimeError\<close>, because \<open>self.index\<close> was assigned before \<open>json.load\<close> ran.
\<close>

theorem C4_errors_beyond_the_guards:
  "fst (build flaky_services (init ''m'') [''b'']) = Inl (ExternalError ''encoder failed'')
   \<and> load [''rag.index'' \<mapsto> IndexFile (IndexFlatIP 1 [[1]]), ''passages.json'' \<mapsto> OtherFile ''{'']
        (init ''m'') ''rag.index'' ''passages.json''
       = (Inl (ExternalError ''json.load: not a passage list''),
          \<lparr> model_name = ''m'', index = Some (IndexFlatIP 1 [[1]]), passages = [] \<rparr>)
   \<and> query flaky_services
         (snd (load [''rag.index'' \<mapsto> IndexFile (IndexFlatIP 1 [[1]]),
                     ''passages.json'' \<mapsto> OtherFile ''{'']
                (init ''m'') ''rag.index'' ''passages.json'')) ''a'' 4
       = Inr []"
  by (simp add: build_cases load_def query_cases init_def flaky_services_def read_index_def
      json_load_def Let_def no_passages_no_hits)

text \<open>
  Claim C4 as amended.  \<open>build\<close> raises \<open>ValueError\<close> exactly when the passage list is
  empty, and then leaves \<open>self\<close> unchanged; on a non-empty list it raises no exception
  of its own, only one of the encoder or of FAISS, and it succeeds exactly when the
  encoder returns rows of the dimension that the embedder reports.  \<open>query\<close> and
  \<open>save\<close> raise \<open>RuntimeError\<close> exactly when \<open>self.index\<close> is \<open>None\<close>; it is \<open>None\<close> on a
  new index, a \<open>build\<close> stopped by its guard, by the encoder or by the constructor of
  the FAISS index leaves it as it was, a \<open>build\<close> or \<open>load\<close> that succeeds sets it,
  and no \<open>build\<close> or \<open>load\<close> resets it.  \<open>load\<close> raises \<open>FileNotFoundError\<close> exactly
  when one of the paths is missing, and then leaves \<open>self\<close> unchanged; when the two
  paths hold an index file and a passages file it succeeds and replaces \<open>index\<close> and
  \<open>passages\<close> by their contents.
\<close>

theorem C4_index_errors:
  "(fst (build sv self ps) = Inl ValueError \<longleftrightarrow> ps = [])
   \<and> (ps = [] \<longrightarrow> snd (build sv self ps) = self)
   \<and> (ps \<noteq> [] \<longrightarrow>
        fst (build sv self ps) = Inr () \<or> (\<exists>e. fst (build sv self ps) = Inl (ExternalError e)))
   \<and> (fst (build sv self ps) = Inr () \<longleftrightarrow>
        ps \<noteq> [] \<and> (\<exists>vs d. encode sv (model_name self) ps = Inr vs
                       \<and> dimension sv (model_name self) = Some d
                       \<and> list_all (\<lambda>row. length row = d) vs))
   \<and> (query sv self q k = Inl RuntimeError \<longleftrightarrow> index self = None)
   \<and> (fst (save fs self ip pp) = Inl RuntimeError \<longleftrightarrow> index self = None)
   \<and> index (init mn) = None
   \<and> (ps = [] \<or> (\<exists>e. encode sv (model_name self) ps = Inl e)
         \<or> dimension sv (model_name self) = None \<longrightarrow>
        index (snd (build sv self ps)) = index self)
   \<and> (fst (build sv self ps) = Inr () \<longrightarrow> index (snd (build sv self ps)) \<noteq> None)
   \<and> (fst (load fs self ip pp) = Inr () \<longrightarrow> index (snd (load fs self ip pp)) \<noteq> None)
   \<and> (index self \<noteq> None \<longrightarrow>
        index (snd (build sv self ps)) \<noteq> None \<and> index (snd (load fs self ip pp)) \<noteq> None)
   \<and> (fst (load fs self ip pp) = Inl FileNotFoundError \<longleftrightarrow> (fs ip = None \<or> fs pp = None))
   \<and> (fs ip = None \<or> fs pp = None \<longrightarrow> snd (load fs self ip pp) = self)
   \<and> (\<forall>i' ps'. fs ip = Some (IndexFile i') \<and> fs pp = Some (PassagesFile ps') \<longrightarrow>
         load fs self ip pp = (Inr (), self\<lparr>index := Some i', passages := ps'\<rparr>))"
proof (intro conjI allI impI)
  show "(fst (build sv self ps) = Inl ValueError) = (ps = [])"
    by (rule build_ValueError_iff)
  show "ps = [] \<Longrightarrow> snd (build sv self ps) = self"
    by (simp add: build_empty_unchanged)
  show "ps \<noteq> [] \<Longrightarrow>
        fst (build sv self ps) = Inr () \<or> (\<exists>e. fst (build sv self ps) = Inl (ExternalError e))"
    by (rule build_external)
  show "(fst (build sv self ps) = Inr ()) =
        (ps \<noteq> [] \<and> (\<exists>vs d. encode sv (model_name self) ps = Inr vs
                       \<and> dimension sv (model_name self) = Some d
                       \<and> list_all (\<lambda>row. length row = d) vs))"
    by (rule build_ok_iff)
  show "(query sv self q k = Inl RuntimeError) = (index self = None)"
    by (rule query_RuntimeError_iff)
  show "(fst (save fs self ip pp) = Inl RuntimeError) = (index self = None)"
    by (rule save_RuntimeError_iff)
  show "index (init mn) = None"
    by (rule init_index)
  show "ps = [] \<or> (\<exists>e. encode sv (model_name self) ps = Inl e)
          \<or> dimension sv (model_name self) = None \<Longrightarrow>
        index (snd (build sv self ps)) = index self"
    using build_early_failure[of sv self ps] by (auto simp: build_empty_unchanged)
  show "fst (build sv self ps) = Inr () \<Longrightarrow> index (snd (build sv self ps)) \<noteq> None"
    by (rule build_ok_index)
  show "fst (load fs self ip pp) = Inr () \<Longrightarrow> index (snd (load fs self ip pp)) \<noteq> None"
    by (rule load_ok_index)
  show "index self \<noteq> None \<Longrightarrow> index (snd (build sv self ps)) \<noteq> None"
    by (rule build_keeps_index)
  show "index self \<noteq> None \<Longrightarrow> index (snd (load fs self ip pp)) \<noteq> None"
    by (rule load_keeps_index)
  show "(fst (load fs self ip pp) = Inl FileNotFoundError) = (fs ip = None \<or> fs pp = None)"
    by (rule load_FileNotFoundError_iff)
  show "fs ip = None \<or> fs pp = None \<Longrightarrow> snd (load fs self ip pp) = self"
    by (simp add: load_missing_unchanged)
  show "\<And>i' ps'. fs ip = Some (IndexFile i') \<and> fs pp = Some (PassagesFile ps') \<Longrightarrow>
         load fs self ip pp = (Inr (), self\<lparr>index := Some i', passages := ps'\<rparr>)"
    by (simp add: load_wellformed)
qed

theorem C4_index_errors_witness:
  "fst (build sample_services (init ''m'') []) = Inl ValueError
   \<and> snd (build sample_services (init ''m'') []) = init ''m''
   \<and> query sample_services (init ''m'') ''q'' 4 = Inl RuntimeError
   \<and> fst (save Map.empty (init ''m'') ''rag.index'' ''passages.json'') = Inl RuntimeError
   \<and> fst (load Map.empty (init ''m'') ''rag.index'' ''passages.json'') = Inl FileNotFoundError
   \<and> snd (load Map.empty (init ''m'') ''rag.index'' ''passages.json'') = init ''m''
   \<and> fst (build sample_services (init ''m'') [''p0'']) = Inr ()
   \<and> index (snd (build sample_services (init ''m'') [''p0''])) \<noteq> None
   \<and> fst (build flaky_services (init ''m'') [''b'']) = Inl (ExternalError ''encoder failed'')
   \<and> index (snd (build flaky_services (init ''m'') [''b''])) = None"
proof -
  note t = C4_index_errors [where sv = sample_services and self = "init ''m''" and ps = "[]"
      and q = "''q''" and k = 4 and fs = Map.empty and ip = "''rag.index''"
      and pp = "''passages.json''" and mn = "''m''"]
  note u = C4_index_errors [where sv = sample_services and self = "init ''m''" and ps = "[''p0'']"
      and q = "''q''" and k = 4 and fs = Map.empty and ip = "''rag.index''"
      and pp = "''passages.json''" and mn = "''m''"]
  note w = C4_index_errors [where sv = flaky_services and self = "init ''m''" and ps = "[''b'']"
      and q = "''q''" and k = 4 and fs = Map.empty and ip = "''rag.index''"
      and pp = "''passages.json''" and mn = "''m''"]
  have e1: "encode sample_services (model_name (init ''m'')) [''p0''] = Inr [[0, 1]]"
    by (simp add: sample_services_def sample_vector_def)
  have d1: "dimension sample_services (model_name (init ''m'')) = Some 2"
    by (simp add: sample_services_def)
  have b: "fst (build sample_services (init ''m'') [''p0'']) = Inr ()"
    using u e1 d1 by simp
  have e2: "encode flaky_services (model_name (init ''m'')) [''b''] = Inl ''encoder failed''"
    by (simp add: flaky_services_def)
  have f: "fst (build flaky_services (init ''m'') [''b'']) = Inl (ExternalError ''encoder failed'')"
    by (simp add: build_encoder_fails e2)
  have i: "index (init ''m'') = None" using t by blast
  have g: "index (snd (build flaky_services (init ''m'') [''b''])) = None"
    using w e2 i by simp
  show ?thesis using t u b f g i by simp
qed

section \<open>C5: the results of a query\<close>

text \<open>
  Claim C5 as stated: on every built or loaded index, for every question and every
  \<open>top_k\<close>, \<open>query\<close> returns a list of results.  \<open>query\<close> passes \<open>top_k\<close> to the search
  of FAISS as it is, and that search asserts that it is positive: on the index built
  from the three sample passages, \<open>query\<close> with \<open>top_k = 0\<close> raises and returns no list.
\<close>

theorem C5_top_k_zero_raises:
  "build sample_services (init ''all-MiniLM-L6-v2'') [''p0'', ''p1'', ''p2'']
     = (Inr (), three_passages)
   \<and> length (passages three_passages) = 3
   \<and> query sample_services three_passages ''balance?'' 0
       = Inl (ExternalError ''AssertionError'')"
  by (simp add: build_three_passages)
    (simp add: query_cases three_passages_def sample_services_def sample_vector_def)

text \<open>
  Claim C5 as amended.  Let \<open>self\<close> hold the search structure and the \<open>N\<close> passages
  that a successful \<open>build\<close> produced (the built index itself, or one loaded from its
  saved files), and let the encoder return for the question one row of the dimension
  of the embedder.  For a positive \<open>top_k\<close>, \<open>query\<close> returns a list of at most
  \<open>min top_k N\<close> results; each has an id in \<open>[0, N)\<close>, the passage at that position, and
  as score the inner product of the normalised row of the question with the
  normalised row of that passage, which is in \<open>[-1, 1]\<close> in the exact arithmetic of the
  model (FAISS computes it in float32, up to rounding); the results are in descending
  order of score; and they are the pairs of the search whose id is in \<open>[0, N)\<close>, in
  the order of the search, the others being filtered out.  For a \<open>top_k\<close> that is not
  positive, \<open>query\<close> raises the assertion error of the search.
\<close>

theorem C5_query_results:
  assumes built: "build sv self0 ps = (Inr (), built)"
      and held: "index self = index built" "passages self = passages built"
      and enc: "encode sv (model_name self) [q] = Inr [v]"
      and dim: "dimension sv (model_name self0) = Some (length v)"
  shows "(0 < top_k \<longrightarrow>
            (\<exists>res vs. query sv self q top_k = Inr res
               \<and> encode sv (model_name self0) ps = Inr vs
               \<and> index self = Some (IndexFlatIP (length v) (normalize_L2 vs))
               \<and> length (passages self) = length ps
               \<and> length res \<le> min (nat top_k) (length (passages self))
               \<and> list_all (hit_ok self) res
               \<and> list_all (\<lambda>h. nat (hit_id h) < length vs
                              \<and> hit_score h
                                  = inner_product (renorm_L2 v) (renorm_L2 (vs ! nat (hit_id h))))
                    res
               \<and> sorted_wrt (\<lambda>a b. hit_score a \<ge> hit_score b) res
               \<and> map (\<lambda>h. (hit_id h, hit_score h)) res
                   = filter (in_range self) (knn (normalize_L2 vs) (renorm_L2 v) (nat top_k))))
       \<and> (top_k \<le> 0 \<longrightarrow> query sv self q top_k = Inl (ExternalError ''AssertionError''))"
proof -
  from build_ok_result[OF built] obtain vs d where b:
    "encode sv (model_name self0) ps = Inr vs"
    "dimension sv (model_name self0) = Some d"
    "index built = Some (IndexFlatIP d (normalize_L2 vs))" "passages built = ps"
    by blast
  have d: "d = length v" using b(2) dim by simp
  let ?xb = "normalize_L2 vs"
  let ?res = "map (make_hit self) (filter (in_range self) (knn ?xb (renorm_L2 v) (nat top_k)))"
  have i: "index self = Some (IndexFlatIP (length v) ?xb)"
    using held(1) b(3) d by simp
  have neg: "query sv self q top_k = Inl (ExternalError ''AssertionError'')" if "top_k \<le> 0"
    using i enc that by (simp add: query_cases)
  have q: "query sv self q top_k = Inr ?res" if "0 < top_k"
    using i enc that by (simp add: query_cases)
  have n: "length (passages self) = length ps"
    using held(2) b(4) by simp
  have l: "length ?res \<le> min (nat top_k) (length (passages self))"
    using kept_length[of self ?xb "renorm_L2 v" "nat top_k"] by simp
  have "list_all (\<lambda>row. norm_L2sqr row \<le> 1) ?xb"
    by (simp add: normalize_L2_def list_all_iff norm_L2sqr_renorm)
  then have ok: "list_all (hit_ok self) ?res"
    by (rule kept_ok[OF norm_L2sqr_renorm])
  have sc: "list_all (\<lambda>h. nat (hit_id h) < length vs
                        \<and> hit_score h
                            = inner_product (renorm_L2 v) (renorm_L2 (vs ! nat (hit_id h))))
              ?res"
    by (rule kept_scores)
  have s: "sorted_wrt (\<lambda>a b. hit_score a \<ge> hit_score b) ?res"
    by (rule kept_sorted)
  have p: "map (\<lambda>h. (hit_id h, hit_score h)) ?res
           = filter (in_range self) (knn ?xb (renorm_L2 v) (nat top_k))"
    by (rule kept_pairs)
  show ?thesis
    using q b(1) i n l ok sc s p neg by blast
qed

theorem C5_query_results_witness:
  "build sample_services (init ''all-MiniLM-L6-v2'') [''p0'', ''p1'', ''p2'']
     = (Inr (), three_passages)
   \<and> encode sample_services (model_name three_passages) [''balance?''] = Inr [[1, 0]]
   \<and> dimension sample_services (model_name (init ''all-MiniLM-L6-v2'')) = Some (length [1, 0 :: real])
   \<and> (0::int) < 10
   \<and> query sample_services three_passages ''balance?'' 10
       = Inr [\<lparr> hit_id = 1, hit_score = 1, hit_passage = ''p1'' \<rparr>,
              \<lparr> hit_id = 0, hit_score = 0, hit_passage = ''p0'' \<rparr>,
              \<lparr> hit_id = 2, hit_score = - 1, hit_passage = ''p2'' \<rparr>]
   \<and> (\<exists>res. query sample_services three_passages ''balance?'' 10 = Inr res
          \<and> length res \<le> 3 \<and> list_all (hit_ok three_passages) res
          \<and> sorted_wrt (\<lambda>a b. hit_score a \<ge> hit_score b) res)
   \<and> query sample_services three_passages ''balance?'' (- 1)
       = Inl (ExternalError ''AssertionError'')"
proof -
  have h1: "build sample_services (init ''all-MiniLM-L6-v2'') [''p0'', ''p1'', ''p2'']
     = (Inr (), three_passages)"
    by (rule build_three_passages)
  have h2: "encode sample_services (model_name three_passages) [''balance?''] = Inr [[1, 0]]"
    by (simp add: sample_services_def sample_vector_def)
  have h3: "dimension sample_services (model_name (init ''all-MiniLM-L6-v2''))
            = Some (length [1, 0 :: real])"
    by (simp add: sample_services_def)
  have h4: "(0::int) < 10" by simp
  have n: "length (passages three_passages) = 3" by (simp add: three_passages_def)
  from C5_query_results [OF h1 refl refl h2 h3, of 10]
  have a: "\<exists>res. query sample_services three_passages ''balance?'' 10 = Inr res
          \<and> length res \<le> 3 \<and> list_all (hit_ok three_passages) res
          \<and> sorted_wrt (\<lambda>a b. hit_score a \<ge> hit_score b) res"
    using n by auto
  from C5_query_results [OF h1 refl refl h2 h3, of "- 1"]
  have b: "query sample_services three_passages ''balance?'' (- 1)
           = Inl (ExternalError ''AssertionError'')"
    by simp
  show ?thesis using h1 h2 h3 h4 a b query_three_passages by simp
qed

section \<open>C6: save and load\<close>

text \<open>
  Claim C6.  For an index that holds a search structure, \<open>save\<close> to two different
  paths succeeds, and \<open>load\<close> from them into a new index over the same model succeeds
  and yields the same passages in the same order and the same search structure, so
  that every query returns the same result (the same ids and the same scores) as on
  the original.
\<close>

theorem C6_save_load_round_trip:
  assumes built: "index self \<noteq> None"
      and paths: "index_path \<noteq> passages_path"
      and fresh: "fresh = init (model_name self)"
  shows "\<exists>fs' loaded.
           save fs self index_path passages_path = (Inr (), fs')
           \<and> load fs' fresh index_path passages_path = (Inr (), loaded)
           \<and> passages loaded = passages self
           \<and> index loaded = index self
           \<and> (\<forall>q k. query sv loaded q k = query sv self q k)"
proof -
  obtain i where i: "index self = Some i" using built by auto
  let ?fs' = "fs(index_path \<mapsto> IndexFile i, passages_path \<mapsto> PassagesFile (passages self))"
  let ?loaded = "fresh\<lparr>index := Some i, passages := passages self\<rparr>"
  have s: "save fs self index_path passages_path = (Inr (), ?fs')"
    by (simp add: save_def i Let_def)
  have "?fs' index_path = Some (IndexFile i)" "?fs' passages_path = Some (PassagesFile (passages self))"
    using paths by simp_all
  then have l: "load ?fs' fresh index_path passages_path = (Inr (), ?loaded)"
    by (rule load_wellformed)
  have q: "\<forall>q k. query sv ?loaded q k = query sv self q k"
    by (intro allI query_depends) (simp_all add: i fresh init_def)
  show ?thesis using s l q i by (intro exI[of _ ?fs'] exI[of _ ?loaded]) simp
qed

theorem C6_save_load_round_trip_witness:
  "index three_passages \<noteq> None
   \<and> ''rag.index'' \<noteq> ''passages.json''
   \<and> (\<exists>fs' loaded.
         save Map.empty three_passages ''rag.index'' ''passages.json'' = (Inr (), fs')
         \<and> load fs' (init (model_name three_passages)) ''rag.index'' ''passages.json''
             = (Inr (), loaded)
         \<and> passages loaded = [''p0'', ''p1'', ''p2'']
         \<and> query sample_services loaded ''balance?'' 10
             = query sample_services three_passages ''balance?'' 10)"
proof -
  have h1: "index three_passages \<noteq> None" by (simp add: three_passages_def)
  have h2: "''rag.index'' \<noteq> ''passages.json''" by simp
  have p: "passages three_passages = [''p0'', ''p1'', ''p2'']" by (simp add: three_passages_def)
  from C6_save_load_round_trip [OF h1 h2 refl, of Map.empty sample_services]
  obtain fs' loaded where
    "save Map.empty three_passages ''rag.index'' ''passages.json'' = (Inr (), fs')"
    "load fs' (init (model_name three_passages)) ''rag.index'' ''passages.json'' = (Inr (), loaded)"
    "passages loaded = passages three_passages"
    "\<forall>q k. query sample_services loaded q k = query sample_services three_passages q k"
    by blast
  then show ?thesis using h1 h2 p by auto
qed

section \<open>C7: a build whose encoder fails\<close>

text \<open>
  Claim C7 says that a \<open>build\<close> whose encoder raises leaves the state of the index as
  it was.  \<open>build\<close> assigns \<open>self.passages\<close> before it calls the encoder.  An index
  built from \<open>[a]\<close> and then rebuilt from \<open>[b, c]\<close> with a failing encoder keeps its
  search structure of one vector and holds the two new passages.
\<close>

theorem C7_failed_build_replaces_passages:
  "build flaky_services (init ''m'') [''a'']
     = (Inr (), \<lparr> model_name = ''m'', index = Some (IndexFlatIP 1 [[1]]), passages = [''a''] \<rparr>)
   \<and> build flaky_services \<lparr> model_name = ''m'', index = Some (IndexFlatIP 1 [[1]]), passages = [''a''] \<rparr> [''b'', ''c'']
     = (Inl (ExternalError ''encoder failed''),
        \<lparr> model_name = ''m'', index = Some (IndexFlatIP 1 [[1]]), passages = [''b'', ''c''] \<rparr>)
   \<and> snd (build flaky_services \<lparr> model_name = ''m'', index = Some (IndexFlatIP 1 [[1]]), passages = [''a''] \<rparr>
              [''b'', ''c''])
       \<noteq> \<lparr> model_name = ''m'', index = Some (IndexFlatIP 1 [[1]]), passages = [''a''] \<rparr>"
  by (simp add: build_cases flaky_services_def init_def normalize_L2_def renorm_L2_def
      norm_L2sqr_def)

section \<open>C8: the merge of two indices\<close>

text \<open>
  Claim C8.  The list passed to \<open>build\<close> by the merge is the concatenation of the
  passages of the existing index and of the uploaded one, reduced to the first
  occurrence of every text: it has no duplicate and the same elements, and the new
  index is built from it on a new object over the model of the existing index.  For
  three different texts \<open>a\<close>, \<open>b\<close>, \<open>c\<close>, merging \<open>[a, b]\<close> with \<open>[b, c]\<close> passes
  \<open>[a, b, c]\<close>.
\<close>

theorem C8_merge_dedupe:
  "deduped_passages_of emb_existing emb_uploaded
     = first_occurrences (passages emb_existing @ passages emb_uploaded)
   \<and> distinct (deduped_passages_of emb_existing emb_uploaded)
   \<and> set (deduped_passages_of emb_existing emb_uploaded)
       = set (passages emb_existing) \<union> set (passages emb_uploaded)
   \<and> merge_indices sv emb_existing emb_uploaded
       = build sv (init (model_name emb_existing))
           (first_occurrences (passages emb_existing @ passages emb_uploaded))
   \<and> (distinct [a, b, c] \<and> passages emb_existing = [a, b] \<and> passages emb_uploaded = [b, c]
        \<longrightarrow> deduped_passages_of emb_existing emb_uploaded = [a, b, c])"
proof -
  have d: "deduped_passages_of emb_existing emb_uploaded
     = first_occurrences (passages emb_existing @ passages emb_uploaded)"
    by (simp add: deduped_passages_of_def dedupe_first_occurrences)
  have "distinct [a, b, c] \<and> passages emb_existing = [a, b] \<and> passages emb_uploaded = [b, c]
        \<longrightarrow> first_occurrences (passages emb_existing @ passages emb_uploaded) = [a, b, c]"
    by auto
  then show ?thesis
    by (simp add: d merge_indices_def distinct_first_occurrences set_first_occurrences)
qed

theorem C8_merge_dedupe_witness:
  "distinct [''a'', ''b'', ''c'']
   \<and> deduped_passages_of \<lparr> model_name = ''m'', index = Some (IndexFlatIP 1 [[1], [1]]), passages = [''a'', ''b''] \<rparr>
                           \<lparr> model_name = ''m'', index = Some (IndexFlatIP 1 [[1], [1]]), passages = [''b'', ''c''] \<rparr>
       = [''a'', ''b'', ''c'']"
proof -
  have h: "distinct [''a'', ''b'', ''c'']" by simp
  show ?thesis
    using h C8_merge_dedupe [where a = "''a''" and b = "''b''" and c = "''c''"
        and emb_existing = "\<lparr> model_name = ''m'', index = Some (IndexFlatIP 1 [[1], [1]]), passages = [''a'', ''b''] \<rparr>"
        and emb_uploaded = "\<lparr> model_name = ''m'', index = Some (IndexFlatIP 1 [[1], [1]]), passages = [''b'', ''c''] \<rparr>"]
    by simp
qed

section \<open>C9: bad inputs in a batch\<close>

text \<open>
  Claim C9 as stated: a missing path and a path of unsupported format are both
  skipped with a warning, and the other documents are processed as if the bad one
  were absent.  \<open>ingest_files\<close> has no notion of an unsupported format: every existing
  path whose extension is not \<open>.pdf\<close> is opened as an image, and an exception of
  \<open>Image.open\<close> leaves the function.  With the text file first, the batch returns no
  passage of the image that follows it.
\<close>

theorem C9_unsupported_format_aborts:
  "path_exists sample_environment (abspath sample_environment ''/in/notes.txt'')
   \<and> str_lower (splitext_ext (basename ''/in/notes.txt'')) = ''.txt''
   \<and> outcome (ingest_files sample_environment [''/in/notes.txt'', ''/in/scan.png''] True 800 150)
       = Inl (ExternalError ''cannot identify image file'')
   \<and> outcome (ingest_files sample_environment [''/in/scan.png''] True 800 150)
       = Inr [\<lparr> source = ''scan.png'', page = 1, chunk_index = 1,
                chunk_text = ''Balance is 500.'',
                label = ''(source:scan.png page:1 chunk:1)'' @ [CHR 0x0A] @ ''Balance is 500.'' \<rparr>]"
  by (simp add: ingest_files_def ingest_from_def file_step_def image_to_text_def outcome_def
      sample_environment_def basename_def splitext_ext_def str_lower_def char_lower_def
      chunk_eval_defs char_of_49)

text \<open>
  Claim C9 as amended.  A path that does not exist is skipped with the warning line,
  and the batch returns what it returns without that path, the same passages or the
  same exception.  A path that exists is never skipped: when it is read without an
  exception, it only appends passages to those of the earlier paths and prints
  nothing.  When its extension is \<open>.pdf\<close> in any letter case it is read as a PDF: an
  exception of the page extraction or of a page leaves the function, and otherwise the
  passages are those its pages add in order; when all its pages have selectable text
  these are the passages of the page texts.  With any other extension it is opened as
  an image: an exception of \<open>Image.open\<close> or of the OCR leaves the function, and
  otherwise the passages of the recognised text are appended as page 1.  An exception
  that leaves one file ends the batch: \<open>ingest_files\<close> returns it, whatever paths
  follow.
\<close>

theorem C9_ingest_paths:
  assumes p': "p' = abspath env p" and name: "name = basename p'"
  shows "(\<not> path_exists env p' \<longrightarrow>
            outcome (ingest_files env (ps1 @ p # ps2) u m ov)
              = outcome (ingest_files env (ps1 @ ps2) u m ov)
            \<and> file_step env u m ov (cm, printed) p
                = Inr (cm, printed @ [''[WARN] '' @ p' @ '' not found, skipping.'']))
       \<and> (path_exists env p' \<and> file_step env u m ov (cm, printed) p = Inr (cm', printed') \<longrightarrow>
            printed' = printed \<and> prefix cm cm')
       \<and> (path_exists env p' \<and> str_lower (splitext_ext name) = ''.pdf'' \<longrightarrow>
            file_step env u m ov (cm, printed) p
              = (case pdf_pages_text env p' u of
                   Inl e \<Rightarrow> Inl e
                 | Inr pages \<Rightarrow>
                     (case foldl_err (page_step env p' name m ov) (cm, None) pages of
                        Inl e \<Rightarrow> Inl e
                      | Inr (cm1, images) \<Rightarrow> Inr (cm1, printed))))
       \<and> (path_exists env p' \<and> str_lower (splitext_ext name) = ''.pdf''
            \<and> pdf_pages_text env p' u = Inr pages
            \<and> list_all (\<lambda>pg. str_strip (snd pg) \<noteq> []) pages \<longrightarrow>
            file_step env u m ov (cm, printed) p
              = Inr (cm @ concat (map (\<lambda>pg. chunk_page_text (tiktoken env) (snd pg) name (fst pg)
                                              m ov) pages),
                     printed))
       \<and> (path_exists env p' \<and> str_lower (splitext_ext name) \<noteq> ''.pdf'' \<longrightarrow>
            file_step env u m ov (cm, printed) p
              = (case image_open env p' of
                   Inl e \<Rightarrow> Inl (ExternalError e)
                 | Inr img \<Rightarrow>
                     (case image_to_string env img of
                        Inl e \<Rightarrow> Inl (ExternalError e)
                      | Inr txt \<Rightarrow>
                          Inr (cm @ chunk_page_text (tiktoken env) txt name 1 m ov, printed))))
       \<and> (ingest_from env u m ov ([], []) ps1 = Inr st \<and> file_step env u m ov st p = Inl e \<longrightarrow>
            ingest_files env (ps1 @ p # ps2) u m ov = Inl e)"
proof (intro conjI impI)
  assume a: "\<not> path_exists env p'"
  then have m: "\<not> path_exists env (abspath env p)" by (simp add: p')
  show "outcome (ingest_files env (ps1 @ p # ps2) u m ov)
        = outcome (ingest_files env (ps1 @ ps2) u m ov)"
    using ingest_from_skip[OF m] by (simp add: ingest_files_def)
  show "file_step env u m ov (cm, printed) p
        = Inr (cm, printed @ [''[WARN] '' @ p' @ '' not found, skipping.''])"
    using file_step_missing[OF m] by (simp add: p')
next
  assume h: "path_exists env p' \<and> file_step env u m ov (cm, printed) p = Inr (cm', printed')"
  then show "printed' = printed" "prefix cm cm'"
    using file_step_existing[of env p u m ov cm printed cm' printed'] by (simp_all add: p')
next
  assume h: "path_exists env p' \<and> str_lower (splitext_ext name) = ''.pdf''"
  show "file_step env u m ov (cm, printed) p
        = (case pdf_pages_text env p' u of
             Inl e \<Rightarrow> Inl e
           | Inr pages \<Rightarrow>
               (case foldl_err (page_step env p' name m ov) (cm, None) pages of
                  Inl e \<Rightarrow> Inl e
                | Inr (cm1, images) \<Rightarrow> Inr (cm1, printed)))"
    unfolding p' name using h[unfolded p' name] by (simp add: file_step_pdf)
next
  assume h: "path_exists env p' \<and> str_lower (splitext_ext name) = ''.pdf''
          \<and> pdf_pages_text env p' u = Inr pages
          \<and> list_all (\<lambda>pg. str_strip (snd pg) \<noteq> []) pages"
  show "file_step env u m ov (cm, printed) p
        = Inr (cm @ concat (map (\<lambda>pg. chunk_page_text (tiktoken env) (snd pg) name (fst pg)
                                        m ov) pages),
               printed)"
    unfolding p' name using h[unfolded p' name] by (simp add: file_step_pdf_selectable)
next
  assume h: "path_exists env p' \<and> str_lower (splitext_ext name) \<noteq> ''.pdf''"
  show "file_step env u m ov (cm, printed) p
        = (case image_open env p' of
             Inl e \<Rightarrow> Inl (ExternalError e)
           | Inr img \<Rightarrow>
               (case image_to_string env img of
                  Inl e \<Rightarrow> Inl (ExternalError e)
                | Inr txt \<Rightarrow>
                    Inr (cm @ chunk_page_text (tiktoken env) txt name 1 m ov, printed)))"
    unfolding p' name using h[unfolded p' name] by (simp add: file_step_image)
next
  assume "ingest_from env u m ov ([], []) ps1 = Inr st \<and> file_step env u m ov st p = Inl e"
  then show "ingest_files env (ps1 @ p # ps2) u m ov = Inl e"
    using ingest_from_abort[of env u m ov "([], [])" ps1 st p e ps2]
    by (simp add: ingest_files_def)
qed

theorem C9_ingest_paths_witness:
  "\<not> path_exists sample_environment ''/in/gone.pdf''
   \<and> outcome (ingest_files sample_environment [''/in/gone.pdf'', ''/in/scan.png''] True 800 150)
       = outcome (ingest_files sample_environment [''/in/scan.png''] True 800 150)
   \<and> file_step sample_environment True 800 150 ([], []) ''/in/gone.pdf''
       = Inr ([], [''[WARN] /in/gone.pdf not found, skipping.''])
   \<and> path_exists sample_environment ''/in/stmt.PDF''
   \<and> str_lower (splitext_ext ''stmt.PDF'') = ''.pdf''
   \<and> pdf_pages_text sample_environment ''/in/stmt.PDF'' True = Inr [(1, ''Paid 20.''), (2, ''Fee 1.'')]
   \<and> file_step sample_environment True 800 150 ([], []) ''/in/stmt.PDF''
       = Inr (chunk_page_text None ''Paid 20.'' ''stmt.PDF'' 1 800 150
                @ chunk_page_text None ''Fee 1.'' ''stmt.PDF'' 2 800 150, [])
   \<and> path_exists sample_environment ''/in/scan.png''
   \<and> str_lower (splitext_ext ''scan.png'') \<noteq> ''.pdf''
   \<and> file_step sample_environment True 800 150 ([], []) ''/in/scan.png''
       = Inr (chunk_page_text None ''Balance is 500.'' ''scan.png'' 1 800 150, [])
   \<and> file_step sample_environment True 800 150 ([], []) ''/in/notes.txt''
       = Inl (ExternalError ''cannot identify image file'')
   \<and> ingest_files sample_environment [''/in/notes.txt'', ''/in/scan.png''] True 800 150
       = Inl (ExternalError ''cannot identify image file'')"
proof -
  have ab: "\<And>p. abspath sample_environment p = p" by (simp add: sample_environment_def)
  have tk: "tiktoken sample_environment = None" by (simp add: sample_environment_def)
  have g: "\<not> path_exists sample_environment ''/in/gone.pdf''"
    by (simp add: sample_environment_def)
  have s1: "path_exists sample_environment ''/in/stmt.PDF''"
    by (simp add: sample_environment_def)
  have s2: "str_lower (splitext_ext ''stmt.PDF'') = ''.pdf''"
    by (simp add: splitext_ext_def str_lower_PDF)
  have s3: "pdf_pages_text sample_environment ''/in/stmt.PDF'' True
            = Inr [(1, ''Paid 20.''), (2, ''Fee 1.'')]"
    by (simp add: pdf_pages_text_def pdf_selectable_text_def pdf_to_images_def numbered_def
        sample_environment_def str_strip_def isspace_def)
  have s4: "list_all (\<lambda>pg. str_strip (snd pg) \<noteq> []) [(1::int, ''Paid 20.''), (2, ''Fee 1.'')]"
    by (simp add: str_strip_def isspace_def)
  have i1: "path_exists sample_environment ''/in/scan.png''"
    by (simp add: sample_environment_def)
  have i2: "str_lower (splitext_ext ''scan.png'') \<noteq> ''.pdf''"
    by (simp add: splitext_ext_def str_lower_def char_lower_def)
  have i3: "image_open sample_environment ''/in/scan.png'' = Inr ''scan''"
           "image_to_string sample_environment ''scan'' = Inr ''Balance is 500.''"
    by (simp_all add: sample_environment_def)
  have n1: "path_exists sample_environment ''/in/notes.txt''"
    by (simp add: sample_environment_def)
  have n2: "str_lower (splitext_ext ''notes.txt'') \<noteq> ''.pdf''"
    by (simp add: splitext_ext_def str_lower_def char_lower_def)
  have n3: "image_open sample_environment ''/in/notes.txt'' = Inl ''cannot identify image file''"
    by (simp add: sample_environment_def)
  have b1: "basename ''/in/gone.pdf'' = ''gone.pdf''" "basename ''/in/stmt.PDF'' = ''stmt.PDF''"
    "basename ''/in/scan.png'' = ''scan.png''" "basename ''/in/notes.txt'' = ''notes.txt''"
    by (simp_all add: basename_def)
  note miss = C9_ingest_paths [of "''/in/gone.pdf''" sample_environment "''/in/gone.pdf''"
      "''gone.pdf''" "[]" "[''/in/scan.png'']" True 800 150 "[]" "[]"]
  note pdfs = C9_ingest_paths [of "''/in/stmt.PDF''" sample_environment "''/in/stmt.PDF''"
      "''stmt.PDF''" "[]" "[]" True 800 150 "[]" "[]" _ _ "[(1, ''Paid 20.''), (2, ''Fee 1.'')]"]
  note imgs = C9_ingest_paths [of "''/in/scan.png''" sample_environment "''/in/scan.png''"
      "''scan.png''" "[]" "[]" True 800 150 "[]" "[]"]
  note txtf = C9_ingest_paths [of "''/in/notes.txt''" sample_environment "''/in/notes.txt''"
      "''notes.txt''" "[]" "[''/in/scan.png'']" True 800 150 "[]" "[]" _ _ _ "([], [])"
      "ExternalError ''cannot identify image file''"]
  have r1: "outcome (ingest_files sample_environment [''/in/gone.pdf'', ''/in/scan.png''] True 800 150)
       = outcome (ingest_files sample_environment [''/in/scan.png''] True 800 150)"
    "file_step sample_environment True 800 150 ([], []) ''/in/gone.pdf''
       = Inr ([], [''[WARN] /in/gone.pdf not found, skipping.''])"
    using g miss[THEN conjunct1] by (simp_all add: ab b1)
  have r2: "file_step sample_environment True 800 150 ([], []) ''/in/stmt.PDF''
       = Inr (chunk_page_text None ''Paid 20.'' ''stmt.PDF'' 1 800 150
                @ chunk_page_text None ''Fee 1.'' ''stmt.PDF'' 2 800 150, [])"
    using s1 s2 s3 s4 pdfs[THEN conjunct2, THEN conjunct2, THEN conjunct2, THEN conjunct1]
    by (simp add: ab b1 tk)
  have r3: "file_step sample_environment True 800 150 ([], []) ''/in/scan.png''
       = Inr (chunk_page_text None ''Balance is 500.'' ''scan.png'' 1 800 150, [])"
    using i1 i2 i3 imgs[THEN conjunct2, THEN conjunct2, THEN conjunct2, THEN conjunct2, THEN conjunct1]
    by (simp add: ab b1 tk)
  have r4: "file_step sample_environment True 800 150 ([], []) ''/in/notes.txt''
       = Inl (ExternalError ''cannot identify image file'')"
    using n1 n2 n3 txtf[THEN conjunct2, THEN conjunct2, THEN conjunct2, THEN conjunct2, THEN conjunct1]
    by (simp add: ab b1)
  have r5: "ingest_files sample_environment [''/in/notes.txt'', ''/in/scan.png''] True 800 150
       = Inl (ExternalError ''cannot identify image file'')"
    using r4 txtf[THEN conjunct2, THEN conjunct2, THEN conjunct2, THEN conjunct2, THEN conjunct2]
    by (simp add: ab b1 ingest_from_def)
  show ?thesis using g s1 s2 s3 i1 i2 r1 r2 r3 r4 r5 by simp
qed

end
